theory Spec2Isabelle
  imports Main
begin

section \<open>Sequencium: board model\<close>

text \<open>
  The game logic of \<^verbatim>\<open>sequencium.py\<close>. A cell is \<^verbatim>\<open>None\<close> or a pair
  \<^verbatim>\<open>(player, value)\<close>; the grid is a list of rows; each player's occupancy set is kept
  as a duplicate-free list whose order stands for the iteration order of the Python set
  (which Python leaves to the implementation; the results below about valid boards hold
  for every order of these lists).
  Every exception the Python can raise is a value \<open>Inl e\<close>.
\<close>

datatype Player = A | B

instantiation Player :: enum
begin

definition enum_Player :: "Player list" where
  "enum_Player = [A, B]"

definition enum_all_Player :: "(Player \<Rightarrow> bool) \<Rightarrow> bool" where
  "enum_all_Player P = (P A \<and> P B)"

definition enum_ex_Player :: "(Player \<Rightarrow> bool) \<Rightarrow> bool" where
  "enum_ex_Player P = (P A \<or> P B)"

instance
proof
  show "(UNIV :: Player set) = set enum_class.enum"
    using Player.exhaust by (auto simp: enum_Player_def)
  show "distinct (enum_class.enum :: Player list)"
    by (simp add: enum_Player_def)
  show "enum_class.enum_all P = Ball (UNIV :: Player set) P" for P
    by (auto simp: enum_all_Player_def) (metis Player.exhaust)
  show "enum_class.enum_ex P = Bex (UNIV :: Player set) P" for P
    by (auto simp: enum_ex_Player_def) (metis Player.exhaust)
qed

end

text \<open>
  \<^verbatim>\<open>IndexError\<close> and \<^verbatim>\<open>TypeError\<close> are the exceptions the code can raise.
  \<open>InvalidConfiguration\<close> is the failure the specification names for a malformed board
  size; no code path produces it.
\<close>

datatype error = IndexError | TypeError | InvalidConfiguration

type_synonym cell = "(Player \<times> int) option"

type_synonym move = "int \<times> int \<times> int"

record GameBoard =
  board_size :: int
  board :: "cell list list"
  player_positions :: "Player \<Rightarrow> (int \<times> int) list"

subsection \<open>Python list indexing\<close>

text \<open>\<^verbatim>\<open>xs[i]\<close>: a negative index counts from the end, anything outside raises.\<close>

definition py_index :: "'a list \<Rightarrow> int \<Rightarrow> error + nat" where
  "py_index xs i =
     (let n = int (length xs); j = (if i < 0 then n + i else i)
      in if 0 \<le> j \<and> j < n then Inr (nat j) else Inl IndexError)"

definition py_get :: "'a list \<Rightarrow> int \<Rightarrow> error + 'a" where
  "py_get xs i = (case py_index xs i of Inl e \<Rightarrow> Inl e | Inr j \<Rightarrow> Inr (xs ! j))"

definition py_set :: "'a list \<Rightarrow> int \<Rightarrow> 'a \<Rightarrow> error + 'a list" where
  "py_set xs i v = (case py_index xs i of Inl e \<Rightarrow> Inl e | Inr j \<Rightarrow> Inr (xs[j := v]))"

text \<open>\<^verbatim>\<open>self.board[row][col]\<close> and \<^verbatim>\<open>self.board[row][col] = x\<close>.\<close>

definition board_at :: "cell list list \<Rightarrow> int \<Rightarrow> int \<Rightarrow> error + cell" where
  "board_at g row col =
     (case py_get g row of Inl e \<Rightarrow> Inl e | Inr r \<Rightarrow> py_get r col)"

definition board_put :: "cell list list \<Rightarrow> int \<Rightarrow> int \<Rightarrow> cell \<Rightarrow> error + cell list list" where
  "board_put g row col x =
     (case py_index g row of
        Inl e \<Rightarrow> Inl e
      | Inr i \<Rightarrow> (case py_set (g ! i) col x of
                   Inl e \<Rightarrow> Inl e
                 | Inr r \<Rightarrow> Inr (g[i := r])))"

text \<open>\<^verbatim>\<open>s.add(x)\<close> on a set.\<close>

definition set_add :: "'a list \<Rightarrow> 'a \<Rightarrow> 'a list" where
  "set_add xs x = (if x \<in> set xs then xs else xs @ [x])"

subsection \<open>GameBoard\<close>

definition GameBoard_init :: "int \<Rightarrow> error + GameBoard" where
  "GameBoard_init n =
     (let g0 = replicate (nat n) (replicate (nat n) None) in
      case board_put g0 0 0 (Some (A, 1)) of
        Inl e \<Rightarrow> Inl e
      | Inr g1 \<Rightarrow>
          (case board_put g1 (n - 1) (n - 1) (Some (B, 1)) of
             Inl e \<Rightarrow> Inl e
           | Inr g2 \<Rightarrow>
               Inr \<lparr>board_size = n, board = g2,
                    player_positions =
                      (\<lambda>p. case p of A \<Rightarrow> set_add [] (0, 0)
                                    | B \<Rightarrow> set_add [] (n - 1, n - 1))\<rparr>))"

definition get_cell :: "GameBoard \<Rightarrow> int \<Rightarrow> int \<Rightarrow> error + cell" where
  "get_cell b row col =
     (if 0 \<le> row \<and> row < board_size b \<and> 0 \<le> col \<and> col < board_size b
      then board_at (board b) row col
      else Inr None)"

definition set_cell :: "GameBoard \<Rightarrow> int \<Rightarrow> int \<Rightarrow> Player \<Rightarrow> int \<Rightarrow> error + GameBoard" where
  "set_cell b row col player v =
     (case board_put (board b) row col (Some (player, v)) of
        Inl e \<Rightarrow> Inl e
      | Inr g \<Rightarrow>
          Inr (b\<lparr>board := g,
                 player_positions :=
                   (player_positions b)(player := set_add (player_positions b player) (row, col))\<rparr>))"

definition get_neighbors :: "GameBoard \<Rightarrow> int \<Rightarrow> int \<Rightarrow> (int \<times> int) list" where
  "get_neighbors b row col =
     concat (map (\<lambda>dr. concat (map (\<lambda>dc.
        if dr = 0 \<and> dc = 0 then []
        else (let nr = row + dr; nc = col + dc
              in if 0 \<le> nr \<and> nr < board_size b \<and> 0 \<le> nc \<and> nc < board_size b
                 then [(nr, nc)] else []))
        [-1, 0, 1])) [-1, 0, 1])"

text \<open>The inner loop of \<^verbatim>\<open>get_valid_moves\<close>: every empty neighbour is proposed.\<close>

fun propose :: "GameBoard \<Rightarrow> (int \<times> int) list \<Rightarrow> int \<Rightarrow> error + move list" where
  "propose b [] new_value = Inr []"
| "propose b ((nr, nc) # ns) new_value =
     (case board_at (board b) nr nc of
        Inl e \<Rightarrow> Inl e
      | Inr c \<Rightarrow>
          (case propose b ns new_value of
             Inl e \<Rightarrow> Inl e
           | Inr ms \<Rightarrow> Inr (if c = None then (nr, nc, new_value) # ms else ms)))"

text \<open>The outer loop: unpacking an empty cell raises \<^verbatim>\<open>TypeError\<close>.\<close>

fun collect_moves :: "GameBoard \<Rightarrow> (int \<times> int) list \<Rightarrow> error + move list" where
  "collect_moves b [] = Inr []"
| "collect_moves b ((pos_row, pos_col) # ps) =
     (case board_at (board b) pos_row pos_col of
        Inl e \<Rightarrow> Inl e
      | Inr None \<Rightarrow> Inl TypeError
      | Inr (Some (_, current_value)) \<Rightarrow>
          (case propose b (get_neighbors b pos_row pos_col) (current_value + 1) of
             Inl e \<Rightarrow> Inl e
           | Inr ms \<Rightarrow>
               (case collect_moves b ps of
                  Inl e \<Rightarrow> Inl e
                | Inr ms' \<Rightarrow> Inr (ms @ ms'))))"

text \<open>
  \<^verbatim>\<open>move_dict\<close>, a dict in insertion order:
  \<^verbatim>\<open>if key not in move_dict or value > move_dict[key]: move_dict[key] = value\<close>.
\<close>

fun dict_put_max :: "((int \<times> int) \<times> int) list \<Rightarrow> int \<times> int \<Rightarrow> int \<Rightarrow> ((int \<times> int) \<times> int) list" where
  "dict_put_max [] k v = [(k, v)]"
| "dict_put_max ((k', v') # d) k v =
     (if k' = k then (k', if v > v' then v else v') # d
      else (k', v') # dict_put_max d k v)"

definition dedup_moves :: "move list \<Rightarrow> move list" where
  "dedup_moves ms =
     map (\<lambda>((row, col), v). (row, col, v))
       (fold (\<lambda>(row, col, v) d. dict_put_max d (row, col) v) ms [])"

definition get_valid_moves :: "GameBoard \<Rightarrow> Player \<Rightarrow> error + move list" where
  "get_valid_moves b player =
     (case collect_moves b (player_positions b player) of
        Inl e \<Rightarrow> Inl e
      | Inr valid_moves \<Rightarrow> Inr (dedup_moves valid_moves))"

definition make_move :: "GameBoard \<Rightarrow> int \<Rightarrow> int \<Rightarrow> Player \<Rightarrow> int \<Rightarrow> error + (bool \<times> GameBoard)" where
  "make_move b row col player v =
     (case board_at (board b) row col of
        Inl e \<Rightarrow> Inl e
      | Inr (Some _) \<Rightarrow> Inr (False, b)
      | Inr None \<Rightarrow>
          (case get_valid_moves b player of
             Inl e \<Rightarrow> Inl e
           | Inr valid_moves \<Rightarrow>
               if (row, col, v) \<notin> set valid_moves then Inr (False, b)
               else (case set_cell b row col player v of
                       Inl e \<Rightarrow> Inl e
                     | Inr b' \<Rightarrow> Inr (True, b'))))"

fun max_over :: "GameBoard \<Rightarrow> (int \<times> int) list \<Rightarrow> int \<Rightarrow> error + int" where
  "max_over b [] max_val = Inr max_val"
| "max_over b ((row, col) # ps) max_val =
     (case board_at (board b) row col of
        Inl e \<Rightarrow> Inl e
      | Inr None \<Rightarrow> Inl TypeError
      | Inr (Some (_, v)) \<Rightarrow> max_over b ps (max max_val v))"

definition get_max_value :: "GameBoard \<Rightarrow> Player \<Rightarrow> error + int" where
  "get_max_value b player = max_over b (player_positions b player) 0"

definition is_game_over :: "GameBoard \<Rightarrow> error + bool" where
  "is_game_over b =
     (case get_valid_moves b A of
        Inl e \<Rightarrow> Inl e
      | Inr ma \<Rightarrow>
          if length ma \<noteq> 0 then Inr False
          else (case get_valid_moves b B of
                  Inl e \<Rightarrow> Inl e
                | Inr mb \<Rightarrow> Inr (length mb = 0)))"

definition get_winner :: "GameBoard \<Rightarrow> error + Player option" where
  "get_winner b =
     (case get_max_value b A of
        Inl e \<Rightarrow> Inl e
      | Inr max_a \<Rightarrow>
          (case get_max_value b B of
             Inl e \<Rightarrow> Inl e
           | Inr max_b \<Rightarrow>
               Inr (if max_a > max_b then Some A
                    else if max_b > max_a then Some B
                    else None)))"

text \<open>\<^verbatim>\<open>copy\<close> first runs the constructor on \<^verbatim>\<open>self.size\<close>, then overwrites both fields.\<close>

definition copy_board :: "GameBoard \<Rightarrow> error + GameBoard" where
  "copy_board b =
     (case GameBoard_init (board_size b) of
        Inl e \<Rightarrow> Inl e
      | Inr new_board \<Rightarrow>
          Inr (new_board\<lparr>board := board b, player_positions := player_positions b\<rparr>))"

section \<open>Search\<close>

subsection \<open>Scores\<close>

text \<open>
  Scores are Python ints; \<^verbatim>\<open>alpha\<close>, \<^verbatim>\<open>beta\<close>, \<^verbatim>\<open>max_eval\<close> and \<^verbatim>\<open>min_eval\<close> also take
  the floats \<^verbatim>\<open>-inf\<close> and \<^verbatim>\<open>inf\<close>, which compare below and above every int.
\<close>

datatype ext = MInf | Fin int | PInf

instantiation ext :: linorder
begin

fun less_eq_ext :: "ext \<Rightarrow> ext \<Rightarrow> bool" where
  "less_eq_ext MInf y = True"
| "less_eq_ext (Fin x) MInf = False"
| "less_eq_ext (Fin x) (Fin y) = (x \<le> y)"
| "less_eq_ext (Fin x) PInf = True"
| "less_eq_ext PInf MInf = False"
| "less_eq_ext PInf (Fin y) = False"
| "less_eq_ext PInf PInf = True"

definition less_ext :: "ext \<Rightarrow> ext \<Rightarrow> bool" where
  "less_ext x y = (x \<le> y \<and> \<not> y \<le> x)"

instance
proof
  fix x y z :: ext
  show "(x < y) = (x \<le> y \<and> \<not> y \<le> x)" by (simp add: less_ext_def)
  show "x \<le> x" by (cases x) simp_all
  show "x \<le> y \<Longrightarrow> y \<le> z \<Longrightarrow> x \<le> z"
    by (cases x; cases y; cases z) simp_all
  show "x \<le> y \<Longrightarrow> y \<le> x \<Longrightarrow> x = y"
    by (cases x; cases y) simp_all
  show "x \<le> y \<or> y \<le> x"
    by (cases x; cases y) auto
qed

end

subsection \<open>SequenciumAI\<close>

record SequenciumAI =
  max_depth :: int
  nodes_evaluated :: nat

definition opponent_of :: "Player \<Rightarrow> Player" where
  "opponent_of player = (if player = A then B else A)"

definition evaluate_position :: "GameBoard \<Rightarrow> Player \<Rightarrow> error + int" where
  "evaluate_position b player =
     (let opponent = opponent_of player in
      case get_max_value b player of
        Inl e \<Rightarrow> Inl e
      | Inr mp \<Rightarrow>
     (case get_max_value b opponent of
        Inl e \<Rightarrow> Inl e
      | Inr mo \<Rightarrow>
     (let max_diff = mp - mo;
          cell_diff = int (length (player_positions b player))
                      - int (length (player_positions b opponent)) in
      case get_valid_moves b player of
        Inl e \<Rightarrow> Inl e
      | Inr vp \<Rightarrow>
     (case get_valid_moves b opponent of
        Inl e \<Rightarrow> Inl e
      | Inr vo \<Rightarrow>
          (let mobility_diff = int (length vp) - int (length vo)
           in Inr (max_diff * 100 + cell_diff * 10 + mobility_diff))))))"


subsection \<open>Every move fills an empty cell\<close>

text \<open>The number of empty cells of the grid is what the search consumes.\<close>

lemma py_index_Inr: "py_index xs i = Inr j \<Longrightarrow> j < length xs"
  by (auto simp: py_index_def Let_def split: if_splits)

lemma py_index_nonneg: "0 \<le> i \<Longrightarrow> py_index xs i = (if i < int (length xs) then Inr (nat i) else Inl IndexError)"
  by (auto simp: py_index_def Let_def)

definition empties :: "cell list list \<Rightarrow> nat" where
  "empties g = sum_list (map (\<lambda>r. length (filter (\<lambda>c. c = None) r)) g)"

lemma row_fill: "j < length r \<Longrightarrow> r ! j = None \<Longrightarrow>
  Suc (length (filter (\<lambda>c. c = None) (r[j := Some x]))) = length (filter (\<lambda>c. c = None) r)"
proof (induction r arbitrary: j)
  case Nil then show ?case by simp
next
  case (Cons a r)
  then show ?case by (cases j) auto
qed

lemma grid_fill: "i < length g \<Longrightarrow> j < length (g ! i) \<Longrightarrow> g ! i ! j = None \<Longrightarrow>
  Suc (empties (g[i := (g ! i)[j := Some x]])) = empties g"
proof (induction g arbitrary: i)
  case Nil then show ?case by simp
next
  case (Cons r g)
  show ?case
  proof (cases i)
    case 0
    with Cons.prems row_fill[of j r x] show ?thesis by (simp add: empties_def)
  next
    case (Suc k)
    with Cons.prems Cons.IH[of k] show ?thesis by (simp add: empties_def)
  qed
qed

lemma board_put_fill:
  assumes "board_at g row col = Inr None"
  shows "\<exists>g'. board_put g row col (Some x) = Inr g' \<and> Suc (empties g') = empties g"
proof -
  from assms obtain i where i: "py_index g row = Inr i"
    by (auto simp: board_at_def py_get_def split: sum.splits)
  with assms obtain j where j: "py_index (g ! i) col = Inr j" and n: "g ! i ! j = None"
    by (auto simp: board_at_def py_get_def split: sum.splits)
  from i j have "i < length g" "j < length (g ! i)" by (auto dest: py_index_Inr)
  with n have "Suc (empties (g[i := (g ! i)[j := Some x]])) = empties g" by (simp add: grid_fill)
  with i j show ?thesis by (simp add: board_put_def py_set_def)
qed

lemma propose_empty:
  "propose b ns nv = Inr ms \<Longrightarrow> (r, c, v) \<in> set ms \<Longrightarrow> board_at (board b) r c = Inr None \<and> (r, c) \<in> set ns \<and> v = nv"
proof (induction ns arbitrary: ms)
  case Nil then show ?case by simp
next
  case (Cons n ns)
  obtain nr nc where n: "n = (nr, nc)" by (cases n)
  from Cons.prems Cons.IH show ?case unfolding n
    by (auto split: sum.splits if_splits)
qed

lemma collect_moves_empty:
  "collect_moves b ps = Inr ms \<Longrightarrow> (r, c, v) \<in> set ms \<Longrightarrow> board_at (board b) r c = Inr None"
proof (induction ps arbitrary: ms)
  case Nil then show ?case by simp
next
  case (Cons q ps)
  obtain pr pc where q: "q = (pr, pc)" by (cases q)
  from Cons.prems Cons.IH show ?case unfolding q
    by (auto split: sum.splits option.splits) (blast dest: propose_empty)
qed

lemma dict_put_max_subset: "set (dict_put_max d k v) \<subseteq> insert (k, v) (set d)"
  by (induction d k v rule: dict_put_max.induct) auto

lemma fold_dict_subset:
  "set (fold (\<lambda>(row, col, v) d. dict_put_max d (row, col) v) ms d0)
     \<subseteq> set d0 \<union> (\<lambda>(row, col, v). ((row, col), v)) ` set ms"
proof (induction ms arbitrary: d0)
  case Nil then show ?case by simp
next
  case (Cons m ms)
  obtain r c v where m: "m = (r, c, v)" by (cases m)
  from Cons.IH[of "dict_put_max d0 (r, c) v"] dict_put_max_subset[of d0 "(r, c)" v]
  show ?case unfolding m by auto
qed

lemma dedup_moves_subset: "set (dedup_moves ms) \<subseteq> set ms"
  using fold_dict_subset[of ms "[]"] by (auto simp: dedup_moves_def)

lemma valid_move_empty:
  "get_valid_moves b p = Inr ms \<Longrightarrow> (r, c, v) \<in> set ms \<Longrightarrow> board_at (board b) r c = Inr None"
  using dedup_moves_subset collect_moves_empty
  by (fastforce simp: get_valid_moves_def split: sum.splits)

lemma make_move_le:
  "make_move b r c p v = Inr (ok, b') \<Longrightarrow> empties (board b') \<le> empties (board b)"
  using board_put_fill[of "board b" r c "(p, v)"]
  by (auto simp: make_move_def set_cell_def split: sum.splits option.splits if_splits)

lemma make_move_valid:
  assumes "get_valid_moves b p = Inr ms" "(r, c, v) \<in> set ms"
  shows "\<exists>b'. make_move b r c p v = Inr (True, b') \<and> Suc (empties (board b')) = empties (board b)"
  using board_put_fill[of "board b" r c "(p, v)"] valid_move_empty[OF assms] assms
  by (auto simp: make_move_def set_cell_def split: sum.splits option.splits if_splits)

lemma copy_board_same: "copy_board b = Inr nb \<Longrightarrow> nb = b"
  by (auto simp: copy_board_def GameBoard_init_def Let_def split: sum.splits)

subsection \<open>Minimax with alpha-beta pruning\<close>

text \<open>
  The termination order of the search: the number of empty cells, then a rank that puts
  a node whose mover must pass above the node after the pass, and a loop over generated
  moves below the node that generated them; then the moves left in the loop.
\<close>

definition node_rank :: "GameBoard \<Rightarrow> bool \<Rightarrow> Player \<Rightarrow> nat" where
  "node_rank b maximizing player =
     (case get_valid_moves b (if maximizing then player else opponent_of player) of
        Inr [] \<Rightarrow> 2
      | _ \<Rightarrow> 1)"

definition loop_rank :: "GameBoard \<Rightarrow> Player \<Rightarrow> move list \<Rightarrow> nat" where
  "loop_rank b current_player moves =
     (case get_valid_moves b current_player of
        Inl e \<Rightarrow> 3
      | Inr ms \<Rightarrow> if set moves \<subseteq> set ms then 0 else 3)"


lemma node_rank_le: "node_rank b mx p \<le> 2"
  by (simp add: node_rank_def split: sum.splits list.splits)

lemma node_rank_pass:
  assumes "is_game_over b = Inr False"
    and "get_valid_moves b (if mx then p else opponent_of p) = Inr []"
  shows "node_rank b (\<not> mx) p < node_rank b mx p"
proof -
  have "(if mx then p else opponent_of p) = A \<or> (if mx then p else opponent_of p) = B"
    by (cases "if mx then p else opponent_of p") auto
  moreover have "(if \<not> mx then p else opponent_of p) = opponent_of (if mx then p else opponent_of p)"
    by (cases p) (auto simp: opponent_of_def)
  ultimately show ?thesis using assms
    by (auto simp: node_rank_def is_game_over_def opponent_of_def
             split: sum.splits list.splits if_splits)
qed

lemma loop_rank_enter:
  assumes "get_valid_moves b (if mx then p else opponent_of p) = Inr ms" and "ms \<noteq> []"
  shows "loop_rank b (if mx then p else opponent_of p) ms < node_rank b mx p"
  using assms by (simp add: loop_rank_def node_rank_def split: list.splits)

lemma loop_rank_rest: "loop_rank b cur rest \<le> loop_rank b cur (m # rest)"
  by (simp add: loop_rank_def split: sum.splits)

lemma loop_rank_cases: "loop_rank b cur ms = 0 \<or> loop_rank b cur ms = 3"
  by (simp add: loop_rank_def split: sum.splits)

lemma loop_child:
  assumes "copy_board b = Inr nb"
    and "make_move nb (fst m) (fst (snd m)) cur (snd (snd m)) = Inr moved"
  shows "empties (board (snd moved)) < empties (board b)
         \<or> (empties (board (snd moved)) = empties (board b)
             \<and> node_rank (snd moved) mx p < loop_rank b cur (m # rest))"
proof -
  from assms(1) have nb: "nb = b" by (rule copy_board_same)
  obtain ok b' where moved: "moved = (ok, b')" by (cases moved)
  show ?thesis
  proof (cases "loop_rank b cur (m # rest) = 0")
    case True
    then obtain ms where ms: "get_valid_moves b cur = Inr ms" "m \<in> set ms"
      by (auto simp: loop_rank_def split: sum.splits if_splits)
    from make_move_valid[OF ms(1), of "fst m" "fst (snd m)" "snd (snd m)"] ms(2) assms(2)
    show ?thesis unfolding nb moved by auto
  next
    case False
    with loop_rank_cases[of b cur "m # rest"] have "loop_rank b cur (m # rest) = 3" by simp
    moreover have "node_rank b' mx p \<le> 2" by (rule node_rank_le)
    moreover from assms(2) have "empties (board b') \<le> empties (board b)"
      unfolding nb moved by (rule make_move_le)
    ultimately show ?thesis unfolding moved by auto
  qed
qed

definition call_measure ::
  "(nat \<times> GameBoard \<times> int \<times> ext \<times> ext \<times> bool \<times> Player)
   + (nat \<times> GameBoard \<times> int \<times> ext \<times> ext \<times> Player \<times> Player \<times> move list \<times> ext \<times> move option)
   + (nat \<times> GameBoard \<times> int \<times> ext \<times> ext \<times> Player \<times> Player \<times> move list \<times> ext \<times> move option)
   \<Rightarrow> nat \<times> nat \<times> nat" where
  "call_measure x =
     (case x of
        Inl (n, b, d, al, be, mx, p) \<Rightarrow> (empties (board b), node_rank b mx p, 0)
      | Inr (Inl (n, b, d, al, be, p, cur, ms, ev, bm)) \<Rightarrow>
          (empties (board b), loop_rank b cur ms, length ms)
      | Inr (Inr (n, b, d, al, be, p, cur, ms, ev, bm)) \<Rightarrow>
          (empties (board b), loop_rank b cur ms, length ms))"

text \<open>
  \<^verbatim>\<open>minimax\<close>; its two \<^verbatim>\<open>for move in valid_moves\<close> loops are \<open>max_loop\<close> and
  \<open>min_loop\<close>, which carry \<^verbatim>\<open>alpha\<close>, \<^verbatim>\<open>beta\<close>, the running best score and the best move.
  The first argument and the first component of the result are \<^verbatim>\<open>self.nodes_evaluated\<close>.
\<close>

function minimax :: "nat \<Rightarrow> GameBoard \<Rightarrow> int \<Rightarrow> ext \<Rightarrow> ext \<Rightarrow> bool \<Rightarrow> Player
                       \<Rightarrow> error + (nat \<times> ext \<times> move option)"
  and max_loop :: "nat \<Rightarrow> GameBoard \<Rightarrow> int \<Rightarrow> ext \<Rightarrow> ext \<Rightarrow> Player \<Rightarrow> Player \<Rightarrow> move list
                       \<Rightarrow> ext \<Rightarrow> move option \<Rightarrow> error + (nat \<times> ext \<times> move option)"
  and min_loop :: "nat \<Rightarrow> GameBoard \<Rightarrow> int \<Rightarrow> ext \<Rightarrow> ext \<Rightarrow> Player \<Rightarrow> Player \<Rightarrow> move list
                       \<Rightarrow> ext \<Rightarrow> move option \<Rightarrow> error + (nat \<times> ext \<times> move option)"
where
  "minimax n b depth alpha beta maximizing_player player =
     (let n1 = n + 1;
          opponent = opponent_of player;
          current_player = (if maximizing_player then player else opponent) in
      if depth = 0 then
        (case evaluate_position b player of
           Inl e \<Rightarrow> Inl e
         | Inr s \<Rightarrow> Inr (n1, Fin s, None))
      else
        (case is_game_over b of
           Inl e \<Rightarrow> Inl e
         | Inr True \<Rightarrow>
             (case evaluate_position b player of
                Inl e \<Rightarrow> Inl e
              | Inr s \<Rightarrow> Inr (n1, Fin s, None))
         | Inr False \<Rightarrow>
             (case get_valid_moves b current_player of
                Inl e \<Rightarrow> Inl e
              | Inr valid_moves \<Rightarrow>
                  if valid_moves = [] then
                    minimax n1 b (depth - 1) alpha beta (\<not> maximizing_player) player
                  else if maximizing_player then
                    max_loop n1 b depth alpha beta player current_player valid_moves MInf None
                  else
                    min_loop n1 b depth alpha beta player current_player valid_moves PInf None)))"
| "max_loop n b depth alpha beta player current_player [] max_eval best_move =
     Inr (n, max_eval, best_move)"
| "max_loop n b depth alpha beta player current_player (move # rest) max_eval best_move =
     (case copy_board b of
        Inl e \<Rightarrow> Inl e
      | Inr new_board \<Rightarrow>
     (case make_move new_board (fst move) (fst (snd move)) current_player (snd (snd move)) of
        Inl e \<Rightarrow> Inl e
      | Inr moved \<Rightarrow>
     (case minimax n (snd moved) (depth - 1) alpha beta False player of
        Inl e \<Rightarrow> Inl e
      | Inr res \<Rightarrow>
          (let n' = fst res;
               eval_score = fst (snd res);
               max_eval' = (if eval_score > max_eval then eval_score else max_eval);
               best_move' = (if eval_score > max_eval then Some move else best_move);
               alpha' = max alpha eval_score in
           if beta \<le> alpha' then Inr (n', max_eval', best_move')
           else max_loop n' b depth alpha' beta player current_player rest max_eval' best_move'))))"
| "min_loop n b depth alpha beta player current_player [] min_eval best_move =
     Inr (n, min_eval, best_move)"
| "min_loop n b depth alpha beta player current_player (move # rest) min_eval best_move =
     (case copy_board b of
        Inl e \<Rightarrow> Inl e
      | Inr new_board \<Rightarrow>
     (case make_move new_board (fst move) (fst (snd move)) current_player (snd (snd move)) of
        Inl e \<Rightarrow> Inl e
      | Inr moved \<Rightarrow>
     (case minimax n (snd moved) (depth - 1) alpha beta True player of
        Inl e \<Rightarrow> Inl e
      | Inr res \<Rightarrow>
          (let n' = fst res;
               eval_score = fst (snd res);
               min_eval' = (if eval_score < min_eval then eval_score else min_eval);
               best_move' = (if eval_score < min_eval then Some move else best_move);
               beta' = min beta eval_score in
           if beta' \<le> alpha then Inr (n', min_eval', best_move')
           else min_loop n' b depth alpha beta' player current_player rest min_eval' best_move'))))"
  by pat_completeness auto
termination
proof (relation "inv_image (less_than <*lex*> less_than <*lex*> less_than) call_measure",
       goal_cases)
  case 1
  show ?case by (intro wf_inv_image wf_lex_prod wf_less_than)
next
  case (2 n b depth alpha beta mx player n1 opp cur over ms)
  then have "node_rank b (\<not> mx) player < node_rank b mx player"
    by (intro node_rank_pass) auto
  then show ?case by (simp add: call_measure_def)
next
  case (3 n b depth alpha beta mx player n1 opp cur over ms)
  then have "loop_rank b (if mx then player else opponent_of player) ms < node_rank b mx player"
    by (intro loop_rank_enter) auto
  with 3 show ?case by (auto simp: call_measure_def)
next
  case (4 n b depth alpha beta mx player n1 opp cur over ms)
  then have "loop_rank b (if mx then player else opponent_of player) ms < node_rank b mx player"
    by (intro loop_rank_enter) auto
  with 4 show ?case by (auto simp: call_measure_def)
next
  case (5 n b depth alpha beta player cur m rest ev bm nb moved)
  from loop_child[OF 5(1) 5(2), of False player rest]
  show ?case by (auto simp: call_measure_def)
next
  case 6
  then show ?case using loop_rank_rest[of _ _ _ _] by (simp add: call_measure_def le_less)
next
  case (7 n b depth alpha beta player cur m rest ev bm nb moved)
  from loop_child[OF 7(1) 7(2), of True player rest]
  show ?case by (auto simp: call_measure_def)
next
  case 8
  then show ?case using loop_rank_rest by (simp add: call_measure_def le_less)
qed

definition get_best_move :: "SequenciumAI \<Rightarrow> GameBoard \<Rightarrow> Player \<Rightarrow> error + (SequenciumAI \<times> move option)" where
  "get_best_move ai b player =
     (let ai0 = ai\<lparr>nodes_evaluated := 0\<rparr> in
      case get_valid_moves b player of
        Inl e \<Rightarrow> Inl e
      | Inr valid_moves \<Rightarrow>
          if valid_moves = [] then Inr (ai0, None)
          else (case minimax (nodes_evaluated ai0) b (max_depth ai0) MInf PInf True player of
                  Inl e \<Rightarrow> Inl e
                | Inr res \<Rightarrow> Inr (ai0\<lparr>nodes_evaluated := fst res\<rparr>, snd (snd res))))"

section \<open>Specification\<close>

subsection \<open>Structurally valid boards\<close>

text \<open>Who owns a cell, read through the bounds-checked \<^verbatim>\<open>get_cell\<close>.\<close>

definition owner_at :: "GameBoard \<Rightarrow> int \<Rightarrow> int \<Rightarrow> Player option" where
  "owner_at b row col =
     (case get_cell b row col of Inr (Some (q, v)) \<Rightarrow> Some q | _ \<Rightarrow> None)"

definition all_coords :: "GameBoard \<Rightarrow> (int \<times> int) list" where
  "all_coords b =
     concat (map (\<lambda>r. map (\<lambda>c. (r, c)) [0..board_size b - 1]) [0..board_size b - 1])"

text \<open>
  The invariant of the data model: every occupied coordinate's cell matches that player,
  and the two occupancy sets partition exactly the non-empty cells.
\<close>

definition occupancy_ok :: "GameBoard \<Rightarrow> bool" where
  "occupancy_ok b =
     ((\<forall>p \<in> {A, B}. \<forall>(r, c) \<in> set (player_positions b p). owner_at b r c = Some p)
      \<and> set (player_positions b A) \<union> set (player_positions b B)
          = set (filter (\<lambda>(r, c). owner_at b r c \<noteq> None) (all_coords b))
      \<and> set (player_positions b A) \<inter> set (player_positions b B) = {})"

text \<open>The grid is square of side \<^verbatim>\<open>size\<close>.\<close>

definition grid_ok :: "GameBoard \<Rightarrow> bool" where
  "grid_ok b =
     (0 < board_size b
      \<and> length (board b) = nat (board_size b)
      \<and> (\<forall>row \<in> set (board b). length row = nat (board_size b)))"

definition wf_board :: "GameBoard \<Rightarrow> bool" where
  "wf_board b =
     (grid_ok b \<and> occupancy_ok b
      \<and> distinct (player_positions b A) \<and> distinct (player_positions b B))"

text \<open>The boards a game can reach: a fresh board of side at least 2, then successful moves.\<close>

inductive reachable :: "GameBoard \<Rightarrow> bool" where
  reachable_init: "2 \<le> n \<Longrightarrow> GameBoard_init n = Inr b \<Longrightarrow> reachable b"
| reachable_move:
    "reachable b \<Longrightarrow> make_move b row col player v = Inr (True, b') \<Longrightarrow> reachable b'"

subsection \<open>Legal moves\<close>

text \<open>The values of the cells of \<open>p\<close> that are 8-adjacent to \<open>(row, col)\<close>.\<close>

definition owned_adjacent_values :: "GameBoard \<Rightarrow> Player \<Rightarrow> int \<Rightarrow> int \<Rightarrow> int list" where
  "owned_adjacent_values b p row col =
     concat (map (\<lambda>(r, c).
        if (r, c) = (row, col) then []
        else (case get_cell b r c of
                Inr (Some (q, v)) \<Rightarrow> if q = p then [v] else []
              | _ \<Rightarrow> []))
       (concat (map (\<lambda>r. map (\<lambda>c. (r, c)) [col - 1..col + 1]) [row - 1..row + 1])))"

definition is_legal_move :: "GameBoard \<Rightarrow> Player \<Rightarrow> move \<Rightarrow> bool" where
  "is_legal_move b p m =
     (case m of (row, col, v) \<Rightarrow>
        0 \<le> row \<and> row < board_size b \<and> 0 \<le> col \<and> col < board_size b
        \<and> get_cell b row col = Inr None
        \<and> owned_adjacent_values b p row col \<noteq> []
        \<and> v = 1 + Max (set (owned_adjacent_values b p row col)))"

section \<open>Proofs\<close>

subsection \<open>Reading a valid board\<close>

definition inb :: "GameBoard \<Rightarrow> int \<Rightarrow> int \<Rightarrow> bool" where
  "inb b r c = (0 \<le> r \<and> r < board_size b \<and> 0 \<le> c \<and> c < board_size b)"

definition cell_of :: "GameBoard \<Rightarrow> int \<Rightarrow> int \<Rightarrow> cell" where
  "cell_of b r c = board b ! nat r ! nat c"

lemma board_at_inb:
  assumes "grid_ok b" "inb b r c"
  shows "board_at (board b) r c = Inr (cell_of b r c)"
proof -
  from assms have r: "nat r < length (board b)" by (auto simp: grid_ok_def inb_def)
  then have "board b ! nat r \<in> set (board b)" by simp
  with assms have "length (board b ! nat r) = nat (board_size b)" by (auto simp: grid_ok_def)
  with assms r show ?thesis
    by (auto simp: board_at_def py_get_def py_index_def inb_def grid_ok_def cell_of_def Let_def)
qed

lemma get_cell_wf:
  "grid_ok b \<Longrightarrow> get_cell b r c = Inr (if inb b r c then cell_of b r c else None)"
  using board_at_inb[of b r c] by (auto simp: get_cell_def inb_def)

lemma owner_at_wf:
  "grid_ok b \<Longrightarrow> owner_at b r c = (if inb b r c then map_option fst (cell_of b r c) else None)"
  by (auto simp: owner_at_def get_cell_wf split: option.splits)

lemma set_all_coords: "set (all_coords b) = {(r, c). inb b r c}"
  by (auto simp: all_coords_def inb_def)

lemma distinct_all_coords: "distinct (all_coords b)"
  unfolding all_coords_def
  by (rule distinct_concat) (auto simp: distinct_map inj_on_def)

lemma occupancy_ok_iff:
  assumes "grid_ok b"
  shows "occupancy_ok b \<longleftrightarrow>
    (\<forall>p r c. (r, c) \<in> set (player_positions b p) \<longleftrightarrow> inb b r c \<and> (\<exists>v. cell_of b r c = Some (p, v)))"
  (is "?L \<longleftrightarrow> ?R")
proof
  assume L: ?L
  show ?R
  proof (intro allI iffI)
    fix p r c
    assume m: "(r, c) \<in> set (player_positions b p)"
    have "p \<in> {A, B}" by (cases p) auto
    with L m have "owner_at b r c = Some p" by (auto simp: occupancy_ok_def)
    with assms show "inb b r c \<and> (\<exists>v. cell_of b r c = Some (p, v))"
      by (auto simp: owner_at_wf split: if_splits)
  next
    fix p r c
    assume h: "inb b r c \<and> (\<exists>v. cell_of b r c = Some (p, v))"
    with assms have o: "owner_at b r c = Some p" by (auto simp: owner_at_wf)
    with h have "(r, c) \<in> set (filter (\<lambda>(r, c). owner_at b r c \<noteq> None) (all_coords b))"
      by (simp add: set_all_coords)
    with L have "(r, c) \<in> set (player_positions b A) \<union> set (player_positions b B)"
      by (simp add: occupancy_ok_def)
    moreover have "(r, c) \<in> set (player_positions b q) \<Longrightarrow> owner_at b r c = Some q" for q
      using L by (cases q) (auto simp: occupancy_ok_def)
    ultimately show "(r, c) \<in> set (player_positions b p)" using o by (cases p) auto
  qed
next
  assume R: ?R
  have 1: "\<forall>p \<in> {A, B}. \<forall>(r, c) \<in> set (player_positions b p). owner_at b r c = Some p"
    using R assms by (auto simp: owner_at_wf)
  have 2: "set (player_positions b A) \<union> set (player_positions b B)
          = set (filter (\<lambda>(r, c). owner_at b r c \<noteq> None) (all_coords b))"
  proof (rule set_eqI)
    fix x :: "int \<times> int"
    obtain r c where x: "x = (r, c)" by (cases x)
    have "(\<exists>p v. cell_of b r c = Some (p, v)) \<longleftrightarrow> cell_of b r c \<noteq> None" by auto
    moreover have "(\<exists>p. P p) \<longleftrightarrow> P A \<or> P B" for P by (metis Player.exhaust)
    ultimately show "x \<in> set (player_positions b A) \<union> set (player_positions b B)
      \<longleftrightarrow> x \<in> set (filter (\<lambda>(r, c). owner_at b r c \<noteq> None) (all_coords b))"
      unfolding x using R assms by (auto simp: owner_at_wf set_all_coords)
  qed
  have 3: "set (player_positions b A) \<inter> set (player_positions b B) = {}"
    using R by auto
  from 1 2 3 show ?L by (simp add: occupancy_ok_def)
qed

definition square :: "int \<Rightarrow> 'a list list \<Rightarrow> bool" where
  "square n g = (length g = nat n \<and> (\<forall>i < nat n. length (g ! i) = nat n))"

definition grid_upd :: "'a list list \<Rightarrow> int \<Rightarrow> int \<Rightarrow> 'a \<Rightarrow> 'a list list" where
  "grid_upd g r c x = g[nat r := (g ! nat r)[nat c := x]]"

lemma grid_ok_square: "grid_ok b \<longleftrightarrow> 0 < board_size b \<and> square (board_size b) (board b)"
  by (auto simp: grid_ok_def square_def all_set_conv_all_nth)

lemma square_row: "square n g \<Longrightarrow> 0 \<le> r \<Longrightarrow> r < n \<Longrightarrow> length (g ! nat r) = nat n"
  by (auto simp: square_def)

lemma square_put:
  assumes "square n g" "0 \<le> r" "r < n" "0 \<le> c" "c < n"
  shows "board_put g r c x = Inr (grid_upd g r c x)"
  using assms square_row[OF assms(1-3)]
  by (auto simp: board_put_def py_set_def py_index_def Let_def grid_upd_def square_def)

lemma square_upd: "square n g \<Longrightarrow> 0 \<le> r \<Longrightarrow> r < n \<Longrightarrow> square n (grid_upd g r c x)"
  unfolding square_def grid_upd_def
  by (auto simp: nth_list_update)

lemma grid_upd_read:
  assumes "square n g" "0 \<le> r" "r < n" "0 \<le> c" "c < n" "0 \<le> r'" "r' < n" "0 \<le> c'" "c' < n"
  shows "grid_upd g r c x ! nat r' ! nat c' = (if r' = r \<and> c' = c then x else g ! nat r' ! nat c')"
  using assms square_row[OF assms(1-3)]
  by (auto simp: grid_upd_def square_def nth_list_update)

lemma square_replicate: "square n (replicate (nat n) (replicate (nat n) x))"
  by (simp add: square_def)


lemma wf_board_iff:
  "wf_board b \<longleftrightarrow>
     grid_ok b
     \<and> (\<forall>p r c. (r, c) \<in> set (player_positions b p)
            \<longleftrightarrow> inb b r c \<and> (\<exists>v. cell_of b r c = Some (p, v)))
     \<and> (\<forall>p. distinct (player_positions b p))"
proof -
  have "(\<forall>p. distinct (player_positions b p))
        \<longleftrightarrow> distinct (player_positions b A) \<and> distinct (player_positions b B)"
    by (metis Player.exhaust)
  then show ?thesis using occupancy_ok_iff[of b] by (auto simp: wf_board_def)
qed

lemma set_cell_inb:
  assumes "grid_ok b" "inb b r c"
  shows "set_cell b r c p v =
         Inr (b\<lparr>board := grid_upd (board b) r c (Some (p, v)),
                player_positions :=
                  (player_positions b)(p := set_add (player_positions b p) (r, c))\<rparr>)"
  using assms square_put[of "board_size b" "board b" r c "Some (p, v)"]
  by (simp add: set_cell_def grid_ok_square inb_def)

lemma set_set_add: "set (set_add xs x) = insert x (set xs)"
  by (auto simp: set_add_def)

lemma distinct_set_add: "distinct xs \<Longrightarrow> distinct (set_add xs x)"
  by (auto simp: set_add_def)

lemma wf_set_cell:
  assumes wf: "wf_board b" and inb: "inb b r c" and emp: "cell_of b r c = None"
    and sc: "set_cell b r c p v = Inr b'"
  shows "wf_board b'"
    and "board_size b' = board_size b"
    and "\<And>r' c'. inb b r' c' \<Longrightarrow>
           cell_of b' r' c' = (if r' = r \<and> c' = c then Some (p, v) else cell_of b r' c')"
    and "\<And>q. set (player_positions b' q)
             = (if q = p then insert (r, c) (set (player_positions b q))
                else set (player_positions b q))"
proof -
  from wf have g: "grid_ok b" by (simp add: wf_board_iff)
  then have sq: "square (board_size b) (board b)" and pos: "0 < board_size b"
    by (simp_all add: grid_ok_square)
  from sc set_cell_inb[OF g inb, of p v]
  have b': "b' = b\<lparr>board := grid_upd (board b) r c (Some (p, v)),
                player_positions :=
                  (player_positions b)(p := set_add (player_positions b p) (r, c))\<rparr>"
    by simp
  show sz: "board_size b' = board_size b" by (simp add: b')
  show rd: "cell_of b' r' c' = (if r' = r \<and> c' = c then Some (p, v) else cell_of b r' c')"
    if "inb b r' c'" for r' c'
    using grid_upd_read[OF sq, of r c r' c' "Some (p, v)"] inb that
    by (simp add: b' cell_of_def inb_def)
  show ps: "set (player_positions b' q)
             = (if q = p then insert (r, c) (set (player_positions b q))
                else set (player_positions b q))" for q
    by (simp add: b' set_set_add)
  have g': "grid_ok b'"
    using square_upd[OF sq, of r c "Some (p, v)"] inb pos
    by (simp add: b' grid_ok_square inb_def)
  have inb': "inb b' r' c' = inb b r' c'" for r' c'
    by (simp add: inb_def sz)
  have ch: "(r', c') \<in> set (player_positions b' q)
            \<longleftrightarrow> inb b' r' c' \<and> (\<exists>v'. cell_of b' r' c' = Some (q, v'))" for q r' c'
  proof (cases "inb b r' c'")
    case True
    with wf emp inb show ?thesis unfolding inb' ps
      by (auto simp: rd wf_board_iff)
  next
    case False
    with wf inb show ?thesis unfolding inb' ps
      by (auto simp: wf_board_iff)
  qed
  have "distinct (player_positions b' q)" for q
    using wf by (auto simp: b' wf_board_iff distinct_set_add)
  with g' ch show "wf_board b'" unfolding wf_board_iff by blast
qed


definition blank_board :: "int \<Rightarrow> GameBoard" where
  "blank_board n = \<lparr>board_size = n, board = replicate (nat n) (replicate (nat n) None),
                     player_positions = (\<lambda>p. [])\<rparr>"

lemma wf_blank: "0 < n \<Longrightarrow> wf_board (blank_board n)"
  unfolding wf_board_iff
  by (auto simp: blank_board_def grid_ok_square square_replicate cell_of_def inb_def)

lemma init_as_moves:
  assumes "set_cell (blank_board n) 0 0 A 1 = Inr b1" "set_cell b1 (n - 1) (n - 1) B 1 = Inr b2"
  shows "GameBoard_init n = Inr b2"
proof -
  have "(\<lambda>p. case p of A \<Rightarrow> set_add [] (0, 0) | B \<Rightarrow> set_add [] (n - 1, n - 1))
        = ((\<lambda>p. [])(A := set_add [] (0, 0)))(B := set_add [] (n - 1, n - 1))"
    by (rule ext) (auto split: Player.splits)
  with assms show ?thesis
    by (auto simp: GameBoard_init_def set_cell_def blank_board_def Let_def split: sum.splits)
qed

lemma init_wf:
  assumes "2 \<le> n"
  shows "\<exists>b. GameBoard_init n = Inr b \<and> wf_board b \<and> board_size b = n
           \<and> (\<forall>r c. inb b r c \<longrightarrow> cell_of b r c =
                 (if (r, c) = (0, 0) then Some (A, 1)
                  else if (r, c) = (n - 1, n - 1) then Some (B, 1) else None))"
proof -
  let ?b0 = "blank_board n"
  from assms have wf0: "wf_board ?b0" by (simp add: wf_blank)
  have sz0: "board_size ?b0 = n" by (simp add: blank_board_def)
  have c0: "cell_of ?b0 r c = None" if "inb ?b0 r c" for r c
    using that by (simp add: blank_board_def cell_of_def inb_def)
  from assms have i0: "inb ?b0 0 0" by (simp add: inb_def sz0)
  from wf0 have "grid_ok ?b0" by (simp add: wf_board_iff)
  from set_cell_inb[OF this i0] obtain b1 where b1: "set_cell ?b0 0 0 A 1 = Inr b1" by blast
  note f1 = wf_set_cell[OF wf0 i0 c0[OF i0] b1]
  from assms have i1: "inb b1 (n - 1) (n - 1)" by (simp add: inb_def f1(2) sz0)
  then have i1': "inb ?b0 (n - 1) (n - 1)" by (simp add: inb_def f1(2))
  from assms have e1: "cell_of b1 (n - 1) (n - 1) = None"
    using f1(3)[OF i1'] c0[OF i1'] by simp
  from f1(1) have "grid_ok b1" by (simp add: wf_board_iff)
  from set_cell_inb[OF this i1] obtain b2 where b2: "set_cell b1 (n - 1) (n - 1) B 1 = Inr b2"
    by blast
  note f2 = wf_set_cell[OF f1(1) i1 e1 b2]
  have "cell_of b2 r c = (if (r, c) = (0, 0) then Some (A, 1)
                  else if (r, c) = (n - 1, n - 1) then Some (B, 1) else None)"
    if "inb b2 r c" for r c
  proof -
    from that have a: "inb b1 r c" and b: "inb ?b0 r c" by (simp_all add: inb_def f2(2) f1(2))
    from assms show ?thesis using f2(3)[OF a] f1(3)[OF b] c0[OF b] by auto
  qed
  with init_as_moves[OF b1 b2] f2(1) f2(2) f1(2) sz0 show ?thesis by auto
qed


lemma init_nonpositive: "n \<le> 0 \<Longrightarrow> GameBoard_init n = Inl IndexError"
  by (simp add: GameBoard_init_def board_put_def py_index_def)

subsection \<open>Board construction\<close>

text \<open>
  C8 (as amended). The constructor has no validation of its own and no
  \<^verbatim>\<open>InvalidConfiguration\<close> error: for a size of 0 or less the grid is empty and the first
  corner assignment raises \<^verbatim>\<open>IndexError\<close>. For every size of at least 2 construction
  succeeds with a structurally valid board of that size: \<open>(0,0)\<close> holds \<open>(A,1)\<close>,
  \<open>(n-1,n-1)\<close> holds \<open>(B,1)\<close> and every other cell is empty.
\<close>

theorem GameBoard_init_sizes:
  "(n \<le> 0 \<longrightarrow> GameBoard_init n = Inl IndexError)
   \<and> (2 \<le> n \<longrightarrow>
        (\<exists>b. GameBoard_init n = Inr b \<and> wf_board b \<and> board_size b = n
           \<and> get_cell b 0 0 = Inr (Some (A, 1))
           \<and> get_cell b (n - 1) (n - 1) = Inr (Some (B, 1))
           \<and> (\<forall>r c. (r, c) \<noteq> (0, 0) \<longrightarrow> (r, c) \<noteq> (n - 1, n - 1)
                  \<longrightarrow> get_cell b r c = Inr None)))"
proof (intro conjI impI)
  assume "n \<le> 0"
  then show "GameBoard_init n = Inl IndexError" by (rule init_nonpositive)
next
  assume n: "2 \<le> n"
  from init_wf[OF n] obtain b where b: "GameBoard_init n = Inr b" "wf_board b" "board_size b = n"
    and cells: "\<And>r c. inb b r c \<Longrightarrow> cell_of b r c =
                 (if (r, c) = (0, 0) then Some (A, 1)
                  else if (r, c) = (n - 1, n - 1) then Some (B, 1) else None)"
    by blast
  from b(2) have g: "grid_ok b" by (simp add: wf_board_iff)
  from n b(3) have i: "inb b 0 0" "inb b (n - 1) (n - 1)" by (simp_all add: inb_def)
  have "get_cell b 0 0 = Inr (Some (A, 1))"
    using cells[OF i(1)] i(1) by (simp add: get_cell_wf[OF g])
  moreover have "get_cell b (n - 1) (n - 1) = Inr (Some (B, 1))"
    using cells[OF i(2)] i(2) n by (simp add: get_cell_wf[OF g])
  moreover have "get_cell b r c = Inr None" if "(r, c) \<noteq> (0, 0)" "(r, c) \<noteq> (n - 1, n - 1)" for r c
    using cells[of r c] that by (cases "inb b r c") (simp_all add: get_cell_wf[OF g])
  ultimately show "\<exists>b. GameBoard_init n = Inr b \<and> wf_board b \<and> board_size b = n
           \<and> get_cell b 0 0 = Inr (Some (A, 1))
           \<and> get_cell b (n - 1) (n - 1) = Inr (Some (B, 1))
           \<and> (\<forall>r c. (r, c) \<noteq> (0, 0) \<longrightarrow> (r, c) \<noteq> (n - 1, n - 1)
                  \<longrightarrow> get_cell b r c = Inr None)"
    using b by blast
qed

theorem GameBoard_init_sizes_witness:
  "GameBoard_init (- 3) = Inl IndexError
   \<and> (\<exists>b. GameBoard_init 2 = Inr b \<and> wf_board b \<and> board_size b = 2
          \<and> get_cell b 0 0 = Inr (Some (A, 1)) \<and> get_cell b 1 1 = Inr (Some (B, 1))
          \<and> get_cell b 0 1 = Inr None)"
  using GameBoard_init_sizes[of "- 3"] GameBoard_init_sizes[of 2] by fastforce

theorem GameBoard_init_zero_counterexample:
  "GameBoard_init 0 = Inl IndexError \<and> GameBoard_init 0 \<noteq> Inl InvalidConfiguration"
  by (simp add: GameBoard_init_def board_put_def py_index_def)

subsection \<open>Move generation on a valid board\<close>

definition adj :: "int \<Rightarrow> int \<Rightarrow> int \<Rightarrow> int \<Rightarrow> bool" where
  "adj r c r' c' = (\<bar>r' - r\<bar> \<le> 1 \<and> \<bar>c' - c\<bar> \<le> 1 \<and> (r', c') \<noteq> (r, c))"

lemma adj_sym: "adj r c r' c' = adj r' c' r c"
  by (auto simp: adj_def)

definition around :: "int \<Rightarrow> int \<Rightarrow> (int \<times> int) list" where
  "around r c = [(r - 1, c - 1), (r - 1, c), (r - 1, c + 1), (r, c - 1), (r, c + 1),
                 (r + 1, c - 1), (r + 1, c), (r + 1, c + 1)]"

lemma get_neighbors_around:
  "get_neighbors b r c = filter (\<lambda>(nr, nc). inb b nr nc) (around r c)"
  by (simp add: get_neighbors_def Let_def inb_def around_def)

lemma set_around: "set (around r c) = {(nr, nc). adj r c nr nc}"
proof -
  have "(nr, nc) \<in> set (around r c) \<longleftrightarrow> adj r c nr nc" for nr nc
  proof -
    have a: "\<bar>nr - r\<bar> \<le> 1 \<longleftrightarrow> nr = r - 1 \<or> nr = r \<or> nr = r + 1" by arith
    have b: "\<bar>nc - c\<bar> \<le> 1 \<longleftrightarrow> nc = c - 1 \<or> nc = c \<or> nc = c + 1" by arith
    show ?thesis unfolding adj_def a b around_def by auto
  qed
  then show ?thesis by auto
qed

lemma distinct_around: "distinct (around r c)"
  by (simp add: around_def)

lemma set_get_neighbors:
  "set (get_neighbors b r c) = {(nr, nc). inb b nr nc \<and> adj r c nr nc}"
  unfolding get_neighbors_around using set_around[of r c] by auto

lemma distinct_get_neighbors: "distinct (get_neighbors b r c)"
  unfolding get_neighbors_around using distinct_around by simp

lemma propose_wf:
  assumes "grid_ok b" "\<forall>(r, c) \<in> set ns. inb b r c"
  shows "propose b ns nv =
         Inr (map (\<lambda>(r, c). (r, c, nv)) (filter (\<lambda>(r, c). cell_of b r c = None) ns))"
  using assms(2)
proof (induction ns)
  case Nil then show ?case by simp
next
  case (Cons n ns)
  obtain r c where n: "n = (r, c)" by (cases n)
  from Cons show ?case unfolding n using board_at_inb[OF assms(1), of r c] by auto
qed


lemma set_propose:
  assumes "grid_ok b"
  shows "\<exists>ms. propose b (get_neighbors b pr pc) nv = Inr ms
           \<and> set ms = {(nr, nc, v). v = nv \<and> inb b nr nc \<and> adj pr pc nr nc \<and> cell_of b nr nc = None}"
proof -
  have nb: "\<forall>(r, c) \<in> set (get_neighbors b pr pc). inb b r c"
    by (auto simp: set_get_neighbors)
  show ?thesis unfolding propose_wf[OF assms nb]
    by (auto simp: set_get_neighbors)
qed

lemma collect_moves_wf:
  assumes g: "grid_ok b" and ps: "\<forall>(r, c) \<in> set ps. inb b r c \<and> cell_of b r c \<noteq> None"
  shows "\<exists>ms. collect_moves b ps = Inr ms
           \<and> set ms = {(nr, nc, v). \<exists>(pr, pc) \<in> set ps. \<exists>q.
                          cell_of b pr pc = Some (q, v - 1) \<and> inb b nr nc \<and> adj pr pc nr nc
                          \<and> cell_of b nr nc = None}"
  using ps
proof (induction ps)
  case Nil then show ?case by simp
next
  case (Cons x ps)
  obtain pr pc where x: "x = (pr, pc)" by (cases x)
  from Cons.prems obtain q v0 where c: "inb b pr pc" "cell_of b pr pc = Some (q, v0)"
    unfolding x by auto
  from set_propose[OF g, of pr pc "v0 + 1"] obtain ms1 where
    ms1: "propose b (get_neighbors b pr pc) (v0 + 1) = Inr ms1"
         "set ms1 = {(nr, nc, v). v = v0 + 1 \<and> inb b nr nc \<and> adj pr pc nr nc \<and> cell_of b nr nc = None}"
    by blast
  from Cons obtain ms where ms: "collect_moves b ps = Inr ms"
    "set ms = {(nr, nc, v). \<exists>(pr, pc) \<in> set ps. \<exists>q.
                          cell_of b pr pc = Some (q, v - 1) \<and> inb b nr nc \<and> adj pr pc nr nc
                          \<and> cell_of b nr nc = None}"
    by auto
  have cm: "collect_moves b (x # ps) = Inr (ms1 @ ms)"
    unfolding x using board_at_inb[OF g c(1)] c(2) ms1(1) ms(1) by simp
  have "set (ms1 @ ms) = {(nr, nc, v). \<exists>(pr, pc) \<in> set (x # ps). \<exists>q.
                          cell_of b pr pc = Some (q, v - 1) \<and> inb b nr nc \<and> adj pr pc nr nc
                          \<and> cell_of b nr nc = None}"
  proof (rule set_eqI)
    fix m :: move
    obtain nr nc v where m: "m = (nr, nc, v)" by (cases m)
    have e: "v - 1 = v0 \<longleftrightarrow> v = v0 + 1" by auto
    show "m \<in> set (ms1 @ ms) \<longleftrightarrow> m \<in> {(nr, nc, v). \<exists>(pr, pc) \<in> set (x # ps). \<exists>q.
                          cell_of b pr pc = Some (q, v - 1) \<and> inb b nr nc \<and> adj pr pc nr nc
                          \<and> cell_of b nr nc = None}"
      unfolding m x using c(2) e by (auto simp: ms1(2) ms(2))
  qed
  with cm show ?case by blast
qed


definition proposed :: "move list \<Rightarrow> int \<times> int \<Rightarrow> int set" where
  "proposed ms k = {v. (fst k, snd k, v) \<in> set ms}"

lemma finite_proposed: "finite (proposed ms k)"
proof -
  have "proposed ms k \<subseteq> (\<lambda>m. snd (snd m)) ` set ms" by (force simp: proposed_def)
  then show ?thesis by (rule finite_subset) simp
qed

lemma dict_put_max_keys: "fst ` set (dict_put_max d k v) = insert k (fst ` set d)"
  by (induction d k v rule: dict_put_max.induct) auto

lemma dict_put_max_distinct: "distinct (map fst d) \<Longrightarrow> distinct (map fst (dict_put_max d k v))"
proof (induction d k v rule: dict_put_max.induct)
  case (1 k v) then show ?case by simp
next
  case (2 k' v' d k v)
  then show ?case using dict_put_max_keys[of d k v] by (auto simp: image_iff)
qed

lemma dict_put_max_map_of:
  "map_of (dict_put_max d k v) =
     (map_of d)(k \<mapsto> (case map_of d k of None \<Rightarrow> v | Some v' \<Rightarrow> max v' v))"
  by (induction d k v rule: dict_put_max.induct) (auto simp: max_def)

lemma fold_dict:
  "distinct (map fst (fold (\<lambda>(row, col, v) d. dict_put_max d (row, col) v) ms []))
   \<and> (\<forall>k. map_of (fold (\<lambda>(row, col, v) d. dict_put_max d (row, col) v) ms []) k
          = (if proposed ms k = {} then None else Some (Max (proposed ms k))))"
proof (induction ms rule: rev_induct)
  case Nil then show ?case by (simp add: proposed_def)
next
  case (snoc m ms)
  let ?d = "fold (\<lambda>(row, col, v) d. dict_put_max d (row, col) v) ms []"
  obtain r c v where m: "m = (r, c, v)" by (cases m)
  have f: "fold (\<lambda>(row, col, v) d. dict_put_max d (row, col) v) (ms @ [m]) []
           = dict_put_max ?d (r, c) v" by (simp add: m)
  have p: "proposed (ms @ [m]) k = (if k = (r, c) then insert v (proposed ms k) else proposed ms k)"
    for k by (cases k) (auto simp: proposed_def m)
  have mx: "Max (insert v (proposed ms k)) = max (Max (proposed ms k)) v"
    if "proposed ms k \<noteq> {}" for k
    using that finite_proposed[of ms k] by (simp add: max.commute)
  from snoc show ?case unfolding f
    by (auto simp: dict_put_max_distinct dict_put_max_map_of p mx)
qed

lemma dedup_moves_set:
  "set (dedup_moves ms) = {(r, c, v). (r, c, v) \<in> set ms \<and> (\<forall>v'. (r, c, v') \<in> set ms \<longrightarrow> v' \<le> v)}"
proof (rule set_eqI)
  fix m :: move
  obtain r c v where m: "m = (r, c, v)" by (cases m)
  let ?d = "fold (\<lambda>(row, col, v) d. dict_put_max d (row, col) v) ms []"
  from fold_dict[of ms] have d: "distinct (map fst ?d)"
    and mo: "map_of ?d (r, c) = (if proposed ms (r, c) = {} then None else Some (Max (proposed ms (r, c))))"
    by auto
  have "m \<in> set (dedup_moves ms) \<longleftrightarrow> ((r, c), v) \<in> set ?d"
    by (force simp: dedup_moves_def m)
  also have "\<dots> \<longleftrightarrow> map_of ?d (r, c) = Some v" using d by simp
  also have "\<dots> \<longleftrightarrow> proposed ms (r, c) \<noteq> {} \<and> v = Max (proposed ms (r, c))"
    unfolding mo by auto
  also have "\<dots> \<longleftrightarrow> v \<in> proposed ms (r, c) \<and> (\<forall>v' \<in> proposed ms (r, c). v' \<le> v)"
    using finite_proposed[of ms "(r, c)"] Max_in[of "proposed ms (r, c)"]
      Max_ge[of "proposed ms (r, c)"] Max_eqI[of "proposed ms (r, c)" v]
    by (metis empty_iff)
  also have "\<dots> \<longleftrightarrow> (r, c, v) \<in> set ms \<and> (\<forall>v'. (r, c, v') \<in> set ms \<longrightarrow> v' \<le> v)"
    by (auto simp: proposed_def)
  finally show "m \<in> set (dedup_moves ms) \<longleftrightarrow>
        m \<in> {(r, c, v). (r, c, v) \<in> set ms \<and> (\<forall>v'. (r, c, v') \<in> set ms \<longrightarrow> v' \<le> v)}"
    by (simp add: m)
qed

lemma dedup_moves_distinct: "distinct (map (\<lambda>(r, c, v). (r, c)) (dedup_moves ms))"
proof -
  have "map (\<lambda>(r, c, v). (r, c)) (dedup_moves ms)
        = map fst (fold (\<lambda>(row, col, v) d. dict_put_max d (row, col) v) ms [])"
    by (simp add: dedup_moves_def case_prod_unfold comp_def)
  with fold_dict[of ms] show ?thesis by simp
qed

lemma set_owned_adjacent_values:
  assumes "grid_ok b"
  shows "set (owned_adjacent_values b p r c)
         = {v. \<exists>r' c'. adj r c r' c' \<and> inb b r' c' \<and> cell_of b r' c' = Some (p, v)}"
proof -
  have box: "set (concat (map (\<lambda>r'. map (\<lambda>c'. (r', c')) [c - 1..c + 1]) [r - 1..r + 1]))
             = {(r', c'). \<bar>r' - r\<bar> \<le> 1 \<and> \<bar>c' - c\<bar> \<le> 1}"
  proof -
    have "set (concat (map (\<lambda>r'. map (\<lambda>c'. (r', c')) [c - 1..c + 1]) [r - 1..r + 1]))
          = {r - 1..r + 1} \<times> {c - 1..c + 1}" by auto
    also have "\<dots> = {(r', c'). \<bar>r' - r\<bar> \<le> 1 \<and> \<bar>c' - c\<bar> \<le> 1}"
      by (auto simp: abs_le_iff)
    finally show ?thesis .
  qed
  let ?f = "\<lambda>(r', c'). if (r', c') = (r, c) then []
              else (case get_cell b r' c' of
                      Inr (Some (q, v)) \<Rightarrow> if q = p then [v] else []
                    | _ \<Rightarrow> [])"
  have f: "v \<in> set (?f x) \<longleftrightarrow> x \<noteq> (r, c) \<and> get_cell b (fst x) (snd x) = Inr (Some (p, v))"
    for v x
    by (cases x) (auto split: sum.splits option.splits)
  have "v \<in> set (owned_adjacent_values b p r c) \<longleftrightarrow>
        (\<exists>x. \<bar>fst x - r\<bar> \<le> 1 \<and> \<bar>snd x - c\<bar> \<le> 1
           \<and> x \<noteq> (r, c) \<and> get_cell b (fst x) (snd x) = Inr (Some (p, v)))" for v
  proof -
    have "v \<in> set (owned_adjacent_values b p r c) \<longleftrightarrow>
          (\<exists>x \<in> {(r', c'). \<bar>r' - r\<bar> \<le> 1 \<and> \<bar>c' - c\<bar> \<le> 1}. v \<in> set (?f x))"
      unfolding owned_adjacent_values_def set_concat set_map box[symmetric] by blast
    then show ?thesis unfolding f by (simp add: case_prod_unfold Bex_def)
  qed
  also have "\<And>v. (\<exists>x. \<bar>fst x - r\<bar> \<le> 1 \<and> \<bar>snd x - c\<bar> \<le> 1
           \<and> x \<noteq> (r, c) \<and> get_cell b (fst x) (snd x) = Inr (Some (p, v)))
        \<longleftrightarrow> (\<exists>r' c'. adj r c r' c' \<and> inb b r' c' \<and> cell_of b r' c' = Some (p, v))"
    unfolding get_cell_wf[OF assms] adj_def by (auto split: if_splits)
  finally show ?thesis by blast
qed



lemma max_shift:
  fixes V :: "int set"
  assumes "finite V"
  shows "(v - 1 \<in> V \<and> (\<forall>v'. v' - 1 \<in> V \<longrightarrow> v' \<le> v)) \<longleftrightarrow> (V \<noteq> {} \<and> v = 1 + Max V)"
proof
  assume a: "v - 1 \<in> V \<and> (\<forall>v'. v' - 1 \<in> V \<longrightarrow> v' \<le> v)"
  then have ne: "V \<noteq> {}" by auto
  have "Max V = v - 1"
  proof (rule Max_eqI[OF assms])
    fix w assume "w \<in> V"
    then have "(w + 1) - 1 \<in> V" by simp
    with a have "w + 1 \<le> v" by blast
    then show "w \<le> v - 1" by simp
  next
    from a show "v - 1 \<in> V" by simp
  qed
  with ne show "V \<noteq> {} \<and> v = 1 + Max V" by simp
next
  assume a: "V \<noteq> {} \<and> v = 1 + Max V"
  with assms have "Max V \<in> V" by (simp add: Max_in)
  moreover have "v' \<le> v" if "v' - 1 \<in> V" for v'
    using Max_ge[OF assms that] a by simp
  ultimately show "v - 1 \<in> V \<and> (\<forall>v'. v' - 1 \<in> V \<longrightarrow> v' \<le> v)" using a by simp
qed

lemma valid_moves_wf:
  assumes wf: "wf_board b"
  shows "\<exists>ms. get_valid_moves b p = Inr ms
           \<and> (\<forall>m. m \<in> set ms \<longleftrightarrow> is_legal_move b p m)
           \<and> distinct (map (\<lambda>(r, c, v). (r, c)) ms)"
proof -
  from wf have g: "grid_ok b"
    and own: "\<And>q r c. (r, c) \<in> set (player_positions b q)
                \<longleftrightarrow> inb b r c \<and> (\<exists>v. cell_of b r c = Some (q, v))"
    by (simp_all add: wf_board_iff)
  have "\<forall>(r, c) \<in> set (player_positions b p). inb b r c \<and> cell_of b r c \<noteq> None"
    using own by auto
  from collect_moves_wf[OF g this] obtain cm where cm: "collect_moves b (player_positions b p) = Inr cm"
    and scm: "set cm = {(nr, nc, v). \<exists>(pr, pc) \<in> set (player_positions b p). \<exists>q.
                          cell_of b pr pc = Some (q, v - 1) \<and> inb b nr nc \<and> adj pr pc nr nc
                          \<and> cell_of b nr nc = None}"
    by blast
  let ?V = "\<lambda>r c. set (owned_adjacent_values b p r c)"
  have V: "w \<in> ?V r c \<longleftrightarrow> (\<exists>r' c'. adj r c r' c' \<and> inb b r' c' \<and> cell_of b r' c' = Some (p, w))"
    for r c w unfolding set_owned_adjacent_values[OF g] by simp
  have incm: "(r, c, v) \<in> set cm \<longleftrightarrow> inb b r c \<and> cell_of b r c = None \<and> v - 1 \<in> ?V r c"
    for r c v
  proof
    assume "(r, c, v) \<in> set cm"
    then obtain pr pc q where h: "(pr, pc) \<in> set (player_positions b p)"
      "cell_of b pr pc = Some (q, v - 1)" "inb b r c" "adj pr pc r c" "cell_of b r c = None"
      unfolding scm by auto
    from h(1) own[of pr pc p] obtain v0 where "inb b pr pc" "cell_of b pr pc = Some (p, v0)"
      by auto
    with h(2) have "inb b pr pc" "cell_of b pr pc = Some (p, v - 1)" by auto
    moreover from h(4) have "adj r c pr pc" by (simp add: adj_sym)
    ultimately have "v - 1 \<in> ?V r c" unfolding V by blast
    with h show "inb b r c \<and> cell_of b r c = None \<and> v - 1 \<in> ?V r c" by simp
  next
    assume a: "inb b r c \<and> cell_of b r c = None \<and> v - 1 \<in> ?V r c"
    then obtain pr pc where h: "adj r c pr pc" "inb b pr pc" "cell_of b pr pc = Some (p, v - 1)"
      unfolding V by blast
    then have "(pr, pc) \<in> set (player_positions b p)" using own[of pr pc p] by simp
    moreover from h(1) have "adj pr pc r c" by (simp add: adj_sym)
    ultimately show "(r, c, v) \<in> set cm" unfolding scm using a h(3) by auto
  qed
  have gvm: "get_valid_moves b p = Inr (dedup_moves cm)"
    by (simp add: get_valid_moves_def cm)
  have "m \<in> set (dedup_moves cm) \<longleftrightarrow> is_legal_move b p m" for m
  proof -
    obtain r c v where m: "m = (r, c, v)" by (cases m)
    have "m \<in> set (dedup_moves cm) \<longleftrightarrow>
          (inb b r c \<and> cell_of b r c = None)
          \<and> (v - 1 \<in> ?V r c \<and> (\<forall>v'. v' - 1 \<in> ?V r c \<longrightarrow> v' \<le> v))"
      unfolding m dedup_moves_set by (auto simp: incm)
    also have "\<dots> \<longleftrightarrow> (inb b r c \<and> cell_of b r c = None)
          \<and> (?V r c \<noteq> {} \<and> v = 1 + Max (?V r c))"
      unfolding max_shift[of "?V r c" v, OF finite_set] ..
    also have "\<dots> \<longleftrightarrow> is_legal_move b p m"
      unfolding m is_legal_move_def using get_cell_wf[OF g, of r c]
      by (auto simp: inb_def)
    finally show ?thesis .
  qed
  with gvm dedup_moves_distinct[of cm] show ?thesis by blast
qed

subsection \<open>Applying a move\<close>

lemma board_at_range:
  assumes "grid_ok b"
  shows "board_at (board b) r c =
     (if - board_size b \<le> r \<and> r < board_size b \<and> - board_size b \<le> c \<and> c < board_size b
      then Inr (cell_of b (if r < 0 then board_size b + r else r)
                          (if c < 0 then board_size b + c else c))
      else Inl IndexError)"
proof -
  from assms have n: "length (board b) = nat (board_size b)" "0 < board_size b"
    and rows: "\<And>i. i < nat (board_size b) \<Longrightarrow> length (board b ! i) = nat (board_size b)"
    by (auto simp: grid_ok_square square_def)
  show ?thesis
  proof (cases "- board_size b \<le> r \<and> r < board_size b")
    case False
    with n show ?thesis by (auto simp: board_at_def py_get_def py_index_def Let_def)
  next
    case True
    let ?i = "nat (if r < 0 then board_size b + r else r)"
    from True n have i: "py_index (board b) r = Inr ?i" "?i < nat (board_size b)"
      by (auto simp: py_index_def Let_def)
    from rows[OF i(2)] True n i show ?thesis
      by (auto simp: board_at_def py_get_def py_index_def Let_def cell_of_def)
  qed
qed

lemma make_move_False: "make_move b r c p v = Inr (False, b') \<Longrightarrow> b' = b"
  by (auto simp: make_move_def split: sum.splits option.splits if_splits)

lemma make_move_wf:
  assumes wf: "wf_board b"
  shows "make_move b r c p v =
     (if \<not> (- board_size b \<le> r \<and> r < board_size b \<and> - board_size b \<le> c \<and> c < board_size b)
      then Inl IndexError
      else if is_legal_move b p (r, c, v)
      then Inr (True, b\<lparr>board := grid_upd (board b) r c (Some (p, v)),
                   player_positions :=
                     (player_positions b)(p := set_add (player_positions b p) (r, c))\<rparr>)
      else Inr (False, b))"
proof -
  from wf have g: "grid_ok b" by (simp add: wf_board_iff)
  from valid_moves_wf[OF wf, of p] obtain ms where ms: "get_valid_moves b p = Inr ms"
    "\<And>m. m \<in> set ms \<longleftrightarrow> is_legal_move b p m" by blast
  show ?thesis
  proof (cases "is_legal_move b p (r, c, v)")
    case True
    then have i: "inb b r c" and e: "get_cell b r c = Inr None"
      by (auto simp: is_legal_move_def inb_def)
    from e i have "board_at (board b) r c = Inr None" by (simp add: get_cell_def inb_def)
    with True ms set_cell_inb[OF g i, of p v] i show ?thesis
      by (simp add: make_move_def inb_def)
  next
    case False
    with ms show ?thesis
      unfolding make_move_def board_at_range[OF g]
      by (auto split: option.splits)
  qed
qed

lemma make_move_True:
  assumes wf: "wf_board b" and mm: "make_move b r c p v = Inr (True, b')"
  shows "wf_board b'" "board_size b' = board_size b" "is_legal_move b p (r, c, v)"
proof -
  from mm show l: "is_legal_move b p (r, c, v)"
    unfolding make_move_wf[OF wf] by (auto split: if_splits)
  then have i: "inb b r c" and e: "get_cell b r c = Inr None"
    by (auto simp: is_legal_move_def inb_def)
  from wf have g: "grid_ok b" by (simp add: wf_board_iff)
  from e i have c: "cell_of b r c = None" by (simp add: get_cell_wf[OF g])
  from mm l have "set_cell b r c p v = Inr b'"
    unfolding make_move_wf[OF wf] set_cell_inb[OF g i] by (auto split: if_splits)
  from wf_set_cell[OF wf i c this] show "wf_board b'" "board_size b' = board_size b" by auto
qed

lemma reachable_wf: "reachable b \<Longrightarrow> wf_board b"
proof (induction rule: reachable.induct)
  case (reachable_init n b)
  with init_wf[of n] show ?case by auto
next
  case (reachable_move b row col player v b')
  then show ?case using make_move_True(1) by blast
qed

subsection \<open>Example positions\<close>

text \<open>\<^verbatim>\<open>GameBoard(n)\<close> where construction succeeds, and a sequence of \<^verbatim>\<open>make_move\<close> calls on it.\<close>

definition new_board :: "int \<Rightarrow> GameBoard" where
  "new_board n = (case GameBoard_init n of Inr b \<Rightarrow> b | Inl e \<Rightarrow> blank_board n)"

definition play :: "GameBoard \<Rightarrow> (int \<times> int \<times> Player \<times> int) list \<Rightarrow> GameBoard" where
  "play b ms =
     fold (\<lambda>(row, col, player, v) b.
             case make_move b row col player v of Inr (ok, b') \<Rightarrow> b' | Inl e \<Rightarrow> b) ms b"

subsection \<open>Legal moves\<close>

text \<open>
  C3. On a structurally valid board the move generator does not raise, and the moves it
  returns for a player are exactly the triples \<open>(row, col, value)\<close> with \<open>(row, col)\<close> an
  empty in-bounds cell that is 8-adjacent to at least one cell of that player and
  \<open>value\<close> one more than the largest value among the player's cells adjacent to it; no
  target coordinate occurs twice in the result.
\<close>

theorem get_valid_moves_legal:
  assumes "wf_board b"
  shows "\<exists>ms. get_valid_moves b p = Inr ms
           \<and> (\<forall>m. m \<in> set ms \<longleftrightarrow> is_legal_move b p m)
           \<and> distinct (map (\<lambda>(row, col, v). (row, col)) ms)"
  using valid_moves_wf[OF assms] .

theorem get_valid_moves_legal_witness:
  "wf_board (play (new_board 3) [(0, 1, A, 2)])
   \<and> get_valid_moves (play (new_board 3) [(0, 1, A, 2)]) A
       = Inr [(1, 0, 3), (1, 1, 3), (0, 2, 3), (1, 2, 3)]
   \<and> is_legal_move (play (new_board 3) [(0, 1, A, 2)]) A (1, 1, 3)
   \<and> \<not> is_legal_move (play (new_board 3) [(0, 1, A, 2)]) A (1, 1, 2)"
proof -
  let ?B = "play (new_board 3) [(0, 1, A, 2)]"
  have w: "wf_board ?B" by code_simp
  have g: "get_valid_moves ?B A = Inr [(1, 0, 3), (1, 1, 3), (0, 2, 3), (1, 2, 3)]"
    by code_simp
  from get_valid_moves_legal[OF w, of A] obtain ms
    where a: "get_valid_moves ?B A = Inr ms"
      and l: "\<And>m. (m \<in> set ms) = is_legal_move ?B A m" by blast
  from a g have ms: "ms = [(1, 0, 3), (1, 1, 3), (0, 2, 3), (1, 2, 3)]" by simp
  have "is_legal_move ?B A (1, 1, 3)" using l[of "(1, 1, 3)"] unfolding ms by simp
  moreover have "\<not> is_legal_move ?B A (1, 1, 2)" using l[of "(1, 1, 2)"] unfolding ms by simp
  ultimately show ?thesis using w g by blast
qed

subsection \<open>The occupancy invariant\<close>

text \<open>
  C7. From the initial board of any size of at least 2, after every sequence of
  successful \<^verbatim>\<open>make_move\<close> calls, every coordinate in a player's occupancy set holds a
  cell owned by that player, the two occupancy sets together are exactly the non-empty
  cells, and they are disjoint.
\<close>

theorem reachable_occupancy_ok:
  assumes "reachable b"
  shows "occupancy_ok b"
  using reachable_wf[OF assms] by (simp add: wf_board_def)

theorem reachable_occupancy_ok_witness:
  "reachable (play (new_board 2) [(0, 1, A, 2)])
   \<and> occupancy_ok (play (new_board 2) [(0, 1, A, 2)])"
proof -
  have i: "GameBoard_init 2 = Inr (new_board 2)" by code_simp
  have m: "make_move (new_board 2) 0 1 A 2 = Inr (True, play (new_board 2) [(0, 1, A, 2)])"
    by code_simp
  have "reachable (new_board 2)" by (rule reachable_init[OF _ i]) simp
  then have r: "reachable (play (new_board 2) [(0, 1, A, 2)])" by (rule reachable_move[OF _ m])
  from reachable_occupancy_ok[OF r] r show ?thesis by simp
qed

subsection \<open>Out-of-range coordinates\<close>

text \<open>
  C4. \<^verbatim>\<open>make_move\<close> reads \<^verbatim>\<open>self.board[row][col]\<close> before any check, so a coordinate
  beyond the grid raises \<^verbatim>\<open>IndexError\<close> instead of returning \<^verbatim>\<open>False\<close>: on the fresh 6x6
  board, \<^verbatim>\<open>make_move(6, 0, Player.A, 2)\<close> raises.
\<close>

theorem make_move_out_of_range_raises:
  "GameBoard_init 6 = Inr (new_board 6)
   \<and> make_move (new_board 6) 6 0 A 2 = Inl IndexError"
  by code_simp

subsection \<open>The evaluator\<close>

text \<open>The quantities of the evaluation formula, read off the grid.\<close>

definition owned_values :: "GameBoard \<Rightarrow> Player \<Rightarrow> int list" where
  "owned_values b p =
     concat (map (\<lambda>(r, c). case get_cell b r c of
                               Inr (Some (q, v)) \<Rightarrow> if q = p then [v] else []
                             | _ \<Rightarrow> []) (all_coords b))"

definition max_value :: "GameBoard \<Rightarrow> Player \<Rightarrow> int" where
  "max_value b p = Max (set (0 # owned_values b p))"

definition cells_owned :: "GameBoard \<Rightarrow> Player \<Rightarrow> nat" where
  "cells_owned b p = length (filter (\<lambda>(r, c). owner_at b r c = Some p) (all_coords b))"

definition legal_moves :: "GameBoard \<Rightarrow> Player \<Rightarrow> move list" where
  "legal_moves b p =
     map (\<lambda>(r, c). (r, c, 1 + Max (set (owned_adjacent_values b p r c))))
       (filter (\<lambda>(r, c). get_cell b r c = Inr None \<and> owned_adjacent_values b p r c \<noteq> [])
          (all_coords b))"

definition mobility :: "GameBoard \<Rightarrow> Player \<Rightarrow> nat" where
  "mobility b p = length (legal_moves b p)"

lemma set_legal_moves: "set (legal_moves b p) = {m. is_legal_move b p m}"
  by (auto simp: legal_moves_def is_legal_move_def set_all_coords inb_def)

lemma distinct_legal_moves: "distinct (legal_moves b p)"
proof -
  have "distinct (map (\<lambda>m. (fst m, fst (snd m))) (legal_moves b p))"
    unfolding legal_moves_def
    by (simp add: comp_def case_prod_unfold distinct_map_filter distinct_all_coords)
  then show ?thesis by (simp add: distinct_map)
qed

lemma mobility_wf:
  assumes "wf_board b" "get_valid_moves b p = Inr ms"
  shows "length ms = mobility b p"
proof -
  from valid_moves_wf[OF assms(1), of p] assms(2)
  have s: "set ms = {m. is_legal_move b p m}" and d: "distinct (map (\<lambda>(r, c, v). (r, c)) ms)"
    by auto
  from d have "distinct ms" by (simp add: distinct_map)
  then have "length ms = card (set ms)" by (simp add: distinct_card)
  also have "\<dots> = card (set (legal_moves b p))" by (simp add: s set_legal_moves)
  also have "\<dots> = length (legal_moves b p)" by (simp add: distinct_card distinct_legal_moves)
  finally show ?thesis by (simp add: mobility_def)
qed

lemma cells_owned_wf:
  assumes "wf_board b"
  shows "length (player_positions b p) = cells_owned b p"
proof -
  from assms have g: "grid_ok b"
    and own: "\<And>r c. (r, c) \<in> set (player_positions b p)
                \<longleftrightarrow> inb b r c \<and> (\<exists>v. cell_of b r c = Some (p, v))"
    and d: "distinct (player_positions b p)"
    by (simp_all add: wf_board_iff)
  have "set (player_positions b p) = set (filter (\<lambda>(r, c). owner_at b r c = Some p) (all_coords b))"
    by (auto simp: own set_all_coords owner_at_wf[OF g])
  moreover have "distinct (filter (\<lambda>(r, c). owner_at b r c = Some p) (all_coords b))"
    by (simp add: distinct_all_coords)
  ultimately show ?thesis using d unfolding cells_owned_def
    by (metis distinct_card)
qed

lemma max_over_wf:
  assumes g: "grid_ok b" and ps: "\<forall>(r, c) \<in> set ps. inb b r c \<and> cell_of b r c \<noteq> None"
  shows "max_over b ps m =
         Inr (Max (insert m {v. \<exists>(r, c) \<in> set ps. \<exists>q. cell_of b r c = Some (q, v)}))"
  using ps
proof (induction ps arbitrary: m)
  case Nil then show ?case by simp
next
  case (Cons x ps)
  obtain r c where x: "x = (r, c)" by (cases x)
  from Cons.prems obtain q v where c: "inb b r c" "cell_of b r c = Some (q, v)"
    unfolding x by auto
  let ?S = "{v. \<exists>(r, c) \<in> set ps. \<exists>q. cell_of b r c = Some (q, v)}"
  have fin: "finite ?S"
  proof -
    have "?S \<subseteq> (\<lambda>(r, c). case cell_of b r c of Some (q, v) \<Rightarrow> v | None \<Rightarrow> 0) ` set ps"
      by (force simp: image_iff)
    then show ?thesis by (rule finite_subset) simp
  qed
  have S: "{v. \<exists>(r, c) \<in> set (x # ps). \<exists>q. cell_of b r c = Some (q, v)} = insert v ?S"
    unfolding x using c(2) by auto
  have "max_over b (x # ps) m = max_over b ps (max m v)"
    unfolding x using board_at_inb[OF g c(1)] c(2) by simp
  also have "\<dots> = Inr (Max (insert (max m v) ?S))" using Cons by simp
  also have "Max (insert (max m v) ?S) = Max (insert m (insert v ?S))"
    using fin by (cases "?S = {}") (simp_all add: max.assoc)
  finally show ?case unfolding S .
qed

lemma get_max_value_wf:
  assumes "wf_board b"
  shows "get_max_value b p = Inr (max_value b p)"
proof -
  from assms have g: "grid_ok b"
    and own: "\<And>r c. (r, c) \<in> set (player_positions b p)
                \<longleftrightarrow> inb b r c \<and> (\<exists>v. cell_of b r c = Some (p, v))"
    by (simp_all add: wf_board_iff)
  have ps: "\<forall>(r, c) \<in> set (player_positions b p). inb b r c \<and> cell_of b r c \<noteq> None"
    using own by auto
  have f: "v \<in> set (case get_cell b r c of
                       Inr (Some (q, v)) \<Rightarrow> if q = p then [v] else []
                     | _ \<Rightarrow> []) \<longleftrightarrow> get_cell b r c = Inr (Some (p, v))" for v r c
    by (auto split: sum.splits option.splits)
  have "v \<in> set (owned_values b p) \<longleftrightarrow> (\<exists>r c. inb b r c \<and> cell_of b r c = Some (p, v))" for v
  proof -
    have "v \<in> set (owned_values b p) \<longleftrightarrow>
          (\<exists>x \<in> set (all_coords b). get_cell b (fst x) (snd x) = Inr (Some (p, v)))"
      unfolding owned_values_def set_concat set_map
      by (auto simp: case_prod_unfold f) (metis fst_conv snd_conv)+
    also have "\<dots> \<longleftrightarrow> (\<exists>r c. inb b r c \<and> cell_of b r c = Some (p, v))"
      by (auto simp: set_all_coords get_cell_wf[OF g])
    finally show ?thesis .
  qed
  moreover have "v \<in> {v. \<exists>(r, c) \<in> set (player_positions b p). \<exists>q. cell_of b r c = Some (q, v)}
        \<longleftrightarrow> (\<exists>r c. inb b r c \<and> cell_of b r c = Some (p, v))" for v
    using own by fastforce
  ultimately have "{v. \<exists>(r, c) \<in> set (player_positions b p). \<exists>q. cell_of b r c = Some (q, v)}
        = set (owned_values b p)"
    by blast
  with max_over_wf[OF g ps, of 0] show ?thesis
    by (simp add: get_max_value_def max_value_def)
qed


lemma evaluate_position_value:
  assumes "wf_board b"
  shows "evaluate_position b p =
         Inr (100 * (max_value b p - max_value b (opponent_of p))
              + 10 * (int (cells_owned b p) - int (cells_owned b (opponent_of p)))
              + 1 * (int (mobility b p) - int (mobility b (opponent_of p))))"
proof -
  from valid_moves_wf[OF assms, of p] obtain vp where vp: "get_valid_moves b p = Inr vp"
    by blast
  from valid_moves_wf[OF assms, of "opponent_of p"] obtain vo
    where vo: "get_valid_moves b (opponent_of p) = Inr vo" by blast
  show ?thesis
    unfolding evaluate_position_def Let_def
    by (simp add: get_max_value_wf[OF assms] vp vo cells_owned_wf[OF assms]
        mobility_wf[OF assms vp] mobility_wf[OF assms vo])
qed

text \<open>
  C6. On a structurally valid board the evaluator returns exactly
  \<open>100 * (max_value(p) - max_value(opponent)) + 10 * (cells_owned(p) - cells_owned(opponent))
  + 1 * (mobility(p) - mobility(opponent))\<close>, where \<open>max_value\<close> is the highest value among
  the player's cells of the grid (0 if none), \<open>cells_owned\<close> the number of cells of the grid
  the player owns and \<open>mobility\<close> the number of legal moves of the player.
\<close>

theorem evaluate_position_formula:
  assumes "wf_board b"
  shows "evaluate_position b p =
         Inr (100 * (max_value b p - max_value b (opponent_of p))
              + 10 * (int (cells_owned b p) - int (cells_owned b (opponent_of p)))
              + 1 * (int (mobility b p) - int (mobility b (opponent_of p))))"
  using evaluate_position_value[OF assms] .

theorem evaluate_position_formula_witness:
  "wf_board (play (new_board 3) [(0, 1, A, 2)])
   \<and> evaluate_position (play (new_board 3) [(0, 1, A, 2)]) A
       = Inr (100 * (2 - 1) + 10 * (2 - 1) + 1 * (4 - 3))"
proof -
  let ?B = "play (new_board 3) [(0, 1, A, 2)]"
  have w: "wf_board ?B" by code_simp
  have v: "max_value ?B A = 2" "max_value ?B B = 1" "cells_owned ?B A = 2" "cells_owned ?B B = 1"
    "mobility ?B A = 4" "mobility ?B B = 3" "opponent_of A = B"
    by code_simp+
  from evaluate_position_formula[OF w, of A] w show ?thesis unfolding v by simp
qed

text \<open>
  C9. The evaluation is antisymmetric between the two players, on every board: the call
  for \<open>A\<close> returns \<open>x\<close> exactly when the call for \<open>B\<close> returns \<open>- x\<close>.
\<close>

theorem evaluate_position_antisymmetric:
  "(evaluate_position b A = Inr x) = (evaluate_position b B = Inr (- x))"
  by (auto simp: evaluate_position_def opponent_of_def Let_def split: sum.splits)

theorem evaluate_position_antisymmetric_witness:
  "evaluate_position (play (new_board 3) [(0, 1, A, 2)]) A = Inr 111
   \<and> evaluate_position (play (new_board 3) [(0, 1, A, 2)]) B = Inr (- 111)"
proof -
  have a: "evaluate_position (play (new_board 3) [(0, 1, A, 2)]) A = Inr 111" by code_simp
  with evaluate_position_antisymmetric[of "play (new_board 3) [(0, 1, A, 2)]" 111]
  show ?thesis by simp
qed

subsection \<open>The game tree\<close>

text \<open>
  The game tree the search walks, with the helper calls read as total functions: the
  moves of a player, the board after a move, the static evaluation, and the terminal test.
\<close>

definition moves_of :: "GameBoard \<Rightarrow> Player \<Rightarrow> move list" where
  "moves_of b p = (case get_valid_moves b p of Inr ms \<Rightarrow> ms | Inl e \<Rightarrow> [])"

definition child :: "GameBoard \<Rightarrow> Player \<Rightarrow> move \<Rightarrow> GameBoard" where
  "child b p m =
     (case make_move b (fst m) (fst (snd m)) p (snd (snd m)) of
        Inr (ok, b') \<Rightarrow> b'
      | Inl e \<Rightarrow> b)"

definition static_eval :: "GameBoard \<Rightarrow> Player \<Rightarrow> int" where
  "static_eval b p = (case evaluate_position b p of Inr s \<Rightarrow> s | Inl e \<Rightarrow> 0)"

definition terminal :: "GameBoard \<Rightarrow> bool" where
  "terminal b = (moves_of b A = [] \<and> moves_of b B = [])"

lemma get_valid_moves_of: "wf_board b \<Longrightarrow> get_valid_moves b p = Inr (moves_of b p)"
  using valid_moves_wf[of b p] by (auto simp: moves_of_def)

lemma is_game_over_wf: "wf_board b \<Longrightarrow> is_game_over b = Inr (terminal b)"
  by (simp add: is_game_over_def get_valid_moves_of terminal_def)

lemma evaluate_position_wf: "wf_board b \<Longrightarrow> evaluate_position b p = Inr (static_eval b p)"
  using evaluate_position_value[of b p] by (simp add: static_eval_def)

lemma init_positive: "0 < n \<Longrightarrow> \<exists>b. GameBoard_init n = Inr b"
proof -
  assume n: "0 < n"
  let ?g0 = "replicate (nat n) (replicate (nat n) (None :: cell))"
  have sq: "square n ?g0" by (rule square_replicate)
  from n have p1: "board_put ?g0 0 0 (Some (A, 1)) = Inr (grid_upd ?g0 0 0 (Some (A, 1)))"
    by (intro square_put[OF sq]) simp_all
  from n have sq1: "square n (grid_upd ?g0 0 0 (Some (A, 1)))"
    by (intro square_upd[OF sq]) simp_all
  from n have "board_put (grid_upd ?g0 0 0 (Some (A, 1))) (n - 1) (n - 1) (Some (B, 1))
        = Inr (grid_upd (grid_upd ?g0 0 0 (Some (A, 1))) (n - 1) (n - 1) (Some (B, 1)))"
    by (intro square_put[OF sq1]) simp_all
  with p1 show ?thesis by (simp add: GameBoard_init_def Let_def)
qed

lemma copy_board_wf: "wf_board b \<Longrightarrow> copy_board b = Inr b"
proof -
  assume "wf_board b"
  then have "0 < board_size b" by (simp add: wf_board_iff grid_ok_def)
  from init_positive[OF this] obtain nb where "GameBoard_init (board_size b) = Inr nb" by blast
  then obtain cb where cb: "copy_board b = Inr cb" by (simp add: copy_board_def)
  from copy_board_same[OF this] cb show ?thesis by simp
qed

lemma child_wf:
  assumes "wf_board b" "m \<in> set (moves_of b p)"
  shows "make_move b (fst m) (fst (snd m)) p (snd (snd m)) = Inr (True, child b p m)"
    and "wf_board (child b p m)"
proof -
  from make_move_valid[OF get_valid_moves_of[OF assms(1)], of "fst m" "fst (snd m)" "snd (snd m)" p]
    assms(2)
  obtain b' where b': "make_move b (fst m) (fst (snd m)) p (snd (snd m)) = Inr (True, b')"
    by auto
  then have c: "child b p m = b'" by (simp add: child_def)
  from b' c show "make_move b (fst m) (fst (snd m)) p (snd (snd m)) = Inr (True, child b p m)"
    by simp
  from make_move_True(1)[OF assms(1) b'] c show "wf_board (child b p m)" by simp
qed

lemma minimax_unfold:
  assumes "wf_board b"
  shows "minimax n b d al be mx p =
     (if d = 0 \<or> terminal b then Inr (Suc n, Fin (static_eval b p), None)
      else if moves_of b (if mx then p else opponent_of p) = []
      then minimax (Suc n) b (d - 1) al be (\<not> mx) p
      else if mx
      then max_loop (Suc n) b d al be p (if mx then p else opponent_of p)
             (moves_of b (if mx then p else opponent_of p)) MInf None
      else min_loop (Suc n) b d al be p (if mx then p else opponent_of p)
             (moves_of b (if mx then p else opponent_of p)) PInf None)"
  by (subst minimax.simps)
     (simp add: Let_def is_game_over_wf[OF assms] evaluate_position_wf[OF assms]
        get_valid_moves_of[OF assms])

lemma if_less_max: "(if ev < c then c else ev) = max ev (c :: 'a :: linorder)"
  by (auto simp: max_def)

lemma if_less_min: "(if c < ev then c else ev) = min ev (c :: 'a :: linorder)"
  by (auto simp: min_def)

lemma max_loop_unfold:
  assumes "wf_board b" "m \<in> set (moves_of b cur)"
  shows "max_loop n b d al be p cur (m # rest) ev bm =
     (case minimax n (child b cur m) (d - 1) al be False p of
        Inl e \<Rightarrow> Inl e
      | Inr res \<Rightarrow>
          if be \<le> max al (fst (snd res))
          then Inr (fst res, max ev (fst (snd res)), if ev < fst (snd res) then Some m else bm)
          else max_loop (fst res) b d (max al (fst (snd res))) be p cur rest
                 (max ev (fst (snd res))) (if ev < fst (snd res) then Some m else bm))"
  by (subst max_loop.simps)
     (simp add: Let_def copy_board_wf[OF assms(1)] child_wf(1)[OF assms] if_less_max
           split: sum.splits)

lemma min_loop_unfold:
  assumes "wf_board b" "m \<in> set (moves_of b cur)"
  shows "min_loop n b d al be p cur (m # rest) ev bm =
     (case minimax n (child b cur m) (d - 1) al be True p of
        Inl e \<Rightarrow> Inl e
      | Inr res \<Rightarrow>
          if min be (fst (snd res)) \<le> al
          then Inr (fst res, min ev (fst (snd res)), if fst (snd res) < ev then Some m else bm)
          else min_loop (fst res) b d al (min be (fst (snd res))) p cur rest
                 (min ev (fst (snd res))) (if fst (snd res) < ev then Some m else bm))"
  by (subst min_loop.simps)
     (simp add: Let_def copy_board_wf[OF assms(1)] child_wf(1)[OF assms] if_less_min
           split: sum.splits)

subsection \<open>The search returns a finite score\<close>

declare minimax.simps [simp del] max_loop.simps(2) [simp del] min_loop.simps(2) [simp del]

lemma ext_finite: "s \<noteq> MInf \<Longrightarrow> s \<noteq> PInf \<Longrightarrow> \<exists>x. s = Fin x"
  by (cases s) auto

lemma max_Fin: "max ev (Fin c) \<noteq> MInf" "ev \<noteq> PInf \<Longrightarrow> max ev (Fin c) \<noteq> PInf"
  by (cases ev; simp add: max_def)+

lemma min_Fin: "min ev (Fin c) \<noteq> PInf" "ev \<noteq> MInf \<Longrightarrow> min ev (Fin c) \<noteq> MInf"
  by (cases ev; simp add: min_def)+

lemma search_returns:
  "wf_board b \<Longrightarrow> \<exists>n' s mv. minimax n b d al be mx p = Inr (n', Fin s, mv)"
  "wf_board b \<Longrightarrow> set ms \<subseteq> set (moves_of b cur) \<Longrightarrow> ev \<noteq> PInf \<Longrightarrow>
     \<exists>n' s mv. max_loop n b d al be p cur ms ev bm = Inr (n', s, mv)
        \<and> s \<noteq> PInf \<and> (ms \<noteq> [] \<or> ev \<noteq> MInf \<longrightarrow> s \<noteq> MInf)"
  "wf_board b \<Longrightarrow> set ms \<subseteq> set (moves_of b cur) \<Longrightarrow> ev \<noteq> MInf \<Longrightarrow>
     \<exists>n' s mv. min_loop n b d al be p cur ms ev bm = Inr (n', s, mv)
        \<and> s \<noteq> MInf \<and> (ms \<noteq> [] \<or> ev \<noteq> PInf \<longrightarrow> s \<noteq> PInf)"
proof (induction n b d al be mx p and n b d al be p cur ms ev bm and n b d al be p cur ms ev bm
       rule: minimax_max_loop_min_loop.induct)
  case (1 n b d al be mx p)
  note wf = \<open>wf_board b\<close>
  let ?cur = "if mx then p else opponent_of p"
  note go = is_game_over_wf[OF wf] and gv = get_valid_moves_of[OF wf, of ?cur]
  show ?case
  proof (cases "d = 0 \<or> terminal b")
    case True
    then show ?thesis by (simp add: minimax_unfold[OF wf])
  next
    case False
    then have d: "d \<noteq> 0" and t: "terminal b = False" by auto
    show ?thesis
    proof (cases "moves_of b ?cur = []")
      case True
      from "1.IH"(1)[OF refl refl refl d go t gv True wf] False True
      show ?thesis by (simp add: minimax_unfold[OF wf])
    next
      case ne: False
      show ?thesis
      proof (cases mx)
        case True
        from "1.IH"(2)[OF refl refl refl d go t gv ne True wf] ne
        obtain n' s mv where r: "max_loop (n + 1) b d al be p ?cur (moves_of b ?cur) MInf None
            = Inr (n', s, mv)" "s \<noteq> PInf" "s \<noteq> MInf" by auto
        from ext_finite[OF r(3) r(2)] r(1) False ne True show ?thesis
          by (auto simp: minimax_unfold[OF wf])
      next
        case mn: False
        from "1.IH"(3)[OF refl refl refl d go t gv ne mn wf] ne
        obtain n' s mv where r: "min_loop (n + 1) b d al be p ?cur (moves_of b ?cur) PInf None
            = Inr (n', s, mv)" "s \<noteq> PInf" "s \<noteq> MInf" by auto
        from ext_finite[OF r(3) r(2)] r(1) False ne mn show ?thesis
          by (auto simp: minimax_unfold[OF wf])
      qed
    qed
  qed
next
  case (2 n b d al be p cur ev bm)
  then show ?case by simp
next
  case (3 n b d al be p cur m rest ev bm)
  note wf = \<open>wf_board b\<close>
  from "3.prems" have m: "m \<in> set (moves_of b cur)" and rest: "set rest \<subseteq> set (moves_of b cur)"
    by auto
  note cp = copy_board_wf[OF wf] and mk = child_wf(1)[OF wf m]
  from "3.IH"(1)[OF cp mk] child_wf(2)[OF wf m]
  obtain n1 c mv1 where c: "minimax n (child b cur m) (d - 1) al be False p = Inr (n1, Fin c, mv1)"
    by auto
  show ?case
  proof (cases "be \<le> max al (Fin c)")
    case True
    with c max_Fin[of ev c] "3.prems"(3) show ?thesis
      by (simp add: max_loop_unfold[OF wf m])
  next
    case False
    from c have c': "minimax n (snd (True, child b cur m)) (d - 1) al be False p
                     = Inr (n1, Fin c, mv1)" by simp
    note IH2 = "3.IH"(2)[OF cp mk c' refl refl refl refl refl,
        unfolded fst_conv snd_conv if_less_max, OF False wf rest]
    from IH2[OF max_Fin(2)[OF "3.prems"(3)]] max_Fin(1)[of ev c]
    have "\<exists>n' s mv. max_loop n1 b d (max al (Fin c)) be p cur rest (max ev (Fin c))
                (if ev < Fin c then Some m else bm) = Inr (n', s, mv)
        \<and> s \<noteq> PInf \<and> s \<noteq> MInf"
      by blast
    with c False show ?thesis by (simp add: max_loop_unfold[OF wf m])
  qed
next
  case (4 n b d al be p cur ev bm)
  then show ?case by simp
next
  case (5 n b d al be p cur m rest ev bm)
  note wf = \<open>wf_board b\<close>
  from "5.prems" have m: "m \<in> set (moves_of b cur)" and rest: "set rest \<subseteq> set (moves_of b cur)"
    by auto
  note cp = copy_board_wf[OF wf] and mk = child_wf(1)[OF wf m]
  from "5.IH"(1)[OF cp mk] child_wf(2)[OF wf m]
  obtain n1 c mv1 where c: "minimax n (child b cur m) (d - 1) al be True p = Inr (n1, Fin c, mv1)"
    by auto
  show ?case
  proof (cases "min be (Fin c) \<le> al")
    case True
    with c min_Fin[of ev c] "5.prems"(3) show ?thesis
      by (simp add: min_loop_unfold[OF wf m])
  next
    case False
    from c have c': "minimax n (snd (True, child b cur m)) (d - 1) al be True p
                     = Inr (n1, Fin c, mv1)" by simp
    note IH2 = "5.IH"(2)[OF cp mk c' refl refl refl refl refl,
        unfolded fst_conv snd_conv if_less_min, OF False wf rest]
    from IH2[OF min_Fin(2)[OF "5.prems"(3)]] min_Fin(1)[of ev c]
    have "\<exists>n' s mv. min_loop n1 b d al (min be (Fin c)) p cur rest (min ev (Fin c))
                (if Fin c < ev then Some m else bm) = Inr (n', s, mv)
        \<and> s \<noteq> MInf \<and> s \<noteq> PInf"
      by blast
    with c False show ?thesis by (simp add: min_loop_unfold[OF wf m])
  qed
qed

subsection \<open>Exhaustive minimax\<close>

text \<open>
  The unpruned minimax over the same game tree: the static evaluation at depth 0 and at
  terminal boards, a pass when the mover has no move, and otherwise the maximum (for the
  root player) or minimum (for the opponent) of the values of all children.
\<close>

fun best_max :: "ext list \<Rightarrow> ext" where
  "best_max [] = MInf"
| "best_max (x # xs) = max x (best_max xs)"

fun best_min :: "ext list \<Rightarrow> ext" where
  "best_min [] = PInf"
| "best_min (x # xs) = min x (best_min xs)"

lemma child_fills:
  assumes "m \<in> set (moves_of b p)"
  shows "Suc (empties (board (child b p m))) = empties (board b)"
proof -
  from assms obtain ms where ms: "get_valid_moves b p = Inr ms" "m \<in> set ms"
    by (cases "get_valid_moves b p") (auto simp: moves_of_def)
  from make_move_valid[OF ms(1), of "fst m" "fst (snd m)" "snd (snd m)"] ms(2)
  show ?thesis by (auto simp: child_def)
qed

lemma pass_gives_move:
  assumes "\<not> terminal b" "moves_of b cur = []"
  shows "moves_of b (opponent_of cur) \<noteq> []"
  using assms by (cases cur) (auto simp: terminal_def opponent_of_def)

lemma opponent_of_mover:
  "(if \<not> mx then p else opponent_of p) = opponent_of (if mx then p else opponent_of p)"
  by (cases p) (auto simp: opponent_of_def)

function exhaustive :: "GameBoard \<Rightarrow> int \<Rightarrow> bool \<Rightarrow> Player \<Rightarrow> ext" where
  "exhaustive b depth maximizing player =
     (if depth = 0 \<or> terminal b then Fin (static_eval b player)
      else if moves_of b (if maximizing then player else opponent_of player) = []
      then exhaustive b (depth - 1) (\<not> maximizing) player
      else if maximizing
      then best_max (map (\<lambda>m. exhaustive (child b player m) (depth - 1) False player)
                      (moves_of b player))
      else best_min (map (\<lambda>m. exhaustive (child b (opponent_of player) m) (depth - 1) True player)
                      (moves_of b (opponent_of player))))"
  by pat_completeness auto
termination
proof (relation "measures [\<lambda>(b, d, mx, p). empties (board b),
                           \<lambda>(b, d, mx, p). if moves_of b (if mx then p else opponent_of p) = []
                                            then 1 else 0]", goal_cases)
  case 1
  show ?case by simp
next
  case (2 b depth mx p)
  then have "moves_of b (if \<not> mx then p else opponent_of p) \<noteq> []"
    unfolding opponent_of_mover by (intro pass_gives_move) auto
  with 2 show ?case by auto
next
  case (3 b depth mx p m)
  with child_fills[of m b p] show ?case by auto
next
  case (4 b depth mx p m)
  with child_fills[of m b "opponent_of p"] show ?case by auto
qed

declare exhaustive.simps [simp del]

subsection \<open>Termination\<close>

text \<open>
  C10. \<open>minimax\<close> is a total function: its definition was accepted with a termination
  proof over all boards, windows and integer depths, along \<open>call_measure\<close>, in which the
  depth plays no part. The facts that make the measure decrease are restated here for
  every reachable board: the call returns a finite score without raising, whatever the
  depth; a move generated for the mover fills exactly one empty cell of the grid; and when
  the mover has no move on a board that is not terminal, the player who gets the turn has
  one.
\<close>

theorem minimax_terminates:
  assumes "reachable b"
  shows "(\<exists>n' s mv. minimax n b depth alpha beta maximizing player = Inr (n', Fin s, mv))
         \<and> (\<forall>m \<in> set (moves_of b cur).
               Suc (empties (board (child b cur m))) = empties (board b))
         \<and> (\<not> terminal b \<and> moves_of b cur = [] \<longrightarrow> moves_of b (opponent_of cur) \<noteq> [])"
  using search_returns(1)[OF reachable_wf[OF assms]] child_fills pass_gives_move by blast

theorem minimax_terminates_witness:
  "reachable (new_board 2)
   \<and> minimax 0 (new_board 2) (- 1) MInf PInf True A = Inr (5, Fin 0, Some (0, 1, 2))
   \<and> Suc (empties (board (child (new_board 2) A (0, 1, 2)))) = empties (board (new_board 2))"
proof -
  have i: "GameBoard_init 2 = Inr (new_board 2)" by code_simp
  have r: "reachable (new_board 2)" by (rule reachable_init[OF _ i]) simp
  have m: "(0, 1, 2) \<in> set (moves_of (new_board 2) A)" by code_simp
  have v: "minimax 0 (new_board 2) (- 1) MInf PInf True A = Inr (5, Fin 0, Some (0, 1, 2))"
    by code_simp
  from minimax_terminates[OF r, of 0 "- 1" MInf PInf True A A] m r v show ?thesis by blast
qed

subsection \<open>Alpha-beta pruning against exhaustive minimax\<close>

text \<open>
  What a fail-soft search with window \<open>(al, be)\<close> promises about its result \<open>s\<close> when the
  exhaustive value is \<open>v\<close>: at or below \<open>al\<close> it is an upper bound, at or above \<open>be\<close> a
  lower bound, and strictly inside the window it is exact.
\<close>

definition fail_soft :: "'a::linorder \<Rightarrow> 'a \<Rightarrow> 'a \<Rightarrow> 'a \<Rightarrow> bool" where
  "fail_soft al be v s = ((s \<le> al \<longrightarrow> v \<le> s) \<and> (al < s \<and> s < be \<longrightarrow> s = v) \<and> (be \<le> s \<longrightarrow> s \<le> v))"

lemma fail_soft_refl: "fail_soft al be v v"
  by (simp add: fail_soft_def)

lemma fail_soft_lower:
  assumes "fail_soft al be x s" "al < be" "y \<le> x" "al < x \<Longrightarrow> x = y"
  shows "fail_soft al be y s"
  using assms unfolding fail_soft_def by (metis leD le_less_trans order_trans not_le)

lemma fail_soft_widen_low:
  assumes "fail_soft c be z s" "al \<le> c" "c \<le> z"
  shows "fail_soft al be z s"
  using assms unfolding fail_soft_def by (metis order_trans not_le antisym)

lemma fail_soft_upper:
  assumes "fail_soft al be x s" "al < be" "x \<le> y" "x < be \<Longrightarrow> x = y"
  shows "fail_soft al be y s"
  using assms unfolding fail_soft_def by (metis leD less_le_trans order_trans not_le)

lemma fail_soft_widen_high:
  assumes "fail_soft al c z s" "c \<le> be" "z \<le> c"
  shows "fail_soft al be z s"
  using assms unfolding fail_soft_def by (metis order_trans not_le antisym)

lemma max_step:
  fixes al :: "'a::linorder"
  assumes "ev \<le> al" "al < be" "fail_soft al be v c" "\<not> be \<le> max al c"
    and "fail_soft (max al c) be (max (max ev c) r) s"
  shows "fail_soft al be (max ev (max v r)) s"
proof (cases "c \<le> al")
  case True
  with assms(3) have v: "v \<le> c" by (simp add: fail_soft_def)
  from True have m: "max al c = al" by (simp add: max_def)
  show ?thesis
  proof (rule fail_soft_lower[OF assms(5)[unfolded m] assms(2)])
    from v show "max ev (max v r) \<le> max (max ev c) r" by (auto simp: max_def)
    assume "al < max (max ev c) r"
    with True v assms(1) show "max (max ev c) r = max ev (max v r)" by (auto simp: max_def)
  qed
next
  case False
  then have lt: "al < c" by simp
  with assms(4) have "c < be" by (auto simp: max_def split: if_splits)
  with lt assms(3) have cv: "c = v" by (simp add: fail_soft_def)
  from lt have m: "max al c = c" by (auto simp: max_def)
  from lt assms(1) have e: "max ev c = c" "max ev (max v r) = max c r"
    unfolding cv[symmetric] by (auto simp: max_def)
  from assms(5) have "fail_soft c be (max c r) s" unfolding m e .
  from fail_soft_widen_low[OF this] lt show ?thesis unfolding e by simp
qed

lemma max_cut:
  fixes al :: "'a::linorder"
  assumes "ev \<le> al" "al < be" "fail_soft al be v c" "be \<le> max al c"
  shows "fail_soft al be (max ev (max v r)) (max ev c)"
proof -
  from assms(2,4) have c: "be \<le> c" by (auto simp: max_def split: if_splits)
  with assms(3) have "c \<le> v" by (simp add: fail_soft_def)
  moreover from c assms(1,2) have "max ev c = c" by (auto simp: max_def)
  ultimately show ?thesis using c assms(2) by (auto simp: fail_soft_def max_def)
qed

lemma min_step:
  fixes al :: "'a::linorder"
  assumes "be \<le> ev" "al < be" "fail_soft al be v c" "\<not> min be c \<le> al"
    and "fail_soft al (min be c) (min (min ev c) r) s"
  shows "fail_soft al be (min ev (min v r)) s"
proof (cases "be \<le> c")
  case True
  with assms(3) have v: "c \<le> v" by (simp add: fail_soft_def)
  from True have m: "min be c = be" by (simp add: min_def)
  show ?thesis
  proof (rule fail_soft_upper[OF assms(5)[unfolded m] assms(2)])
    from v show "min (min ev c) r \<le> min ev (min v r)" by (auto simp: min_def)
    assume "min (min ev c) r < be"
    with True v assms(1) show "min (min ev c) r = min ev (min v r)" by (auto simp: min_def)
  qed
next
  case False
  then have lt: "c < be" by simp
  with assms(4) have "al < c" by (auto simp: min_def split: if_splits)
  with lt assms(3) have cv: "c = v" by (simp add: fail_soft_def)
  from lt have m: "min be c = c" by (auto simp: min_def)
  from lt assms(1) have e: "min ev c = c" "min ev (min v r) = min c r"
    unfolding cv[symmetric] by (auto simp: min_def)
  from assms(5) have "fail_soft al c (min c r) s" unfolding m e .
  from fail_soft_widen_high[OF this] lt show ?thesis unfolding e by simp
qed

lemma min_cut:
  fixes al :: "'a::linorder"
  assumes "be \<le> ev" "al < be" "fail_soft al be v c" "min be c \<le> al"
  shows "fail_soft al be (min ev (min v r)) (min ev c)"
proof -
  from assms(2,4) have c: "c \<le> al" by (auto simp: min_def split: if_splits)
  with assms(3) have "v \<le> c" by (simp add: fail_soft_def)
  moreover from c assms(1,2) have "min ev c = c" by (auto simp: min_def)
  ultimately show ?thesis using c assms(2) by (auto simp: fail_soft_def min_def)
qed

lemma MInf_le [simp]: "MInf \<le> x"
  by simp

lemma le_PInf [simp]: "x \<le> PInf"
  by (cases x) simp_all

lemma fail_soft_full: "fail_soft MInf PInf v s \<Longrightarrow> s = v"
  by (cases s; cases v) (auto simp: fail_soft_def less_ext_def)

lemma max_MInf [simp]: "max MInf x = x"
  by (simp add: max_def)

lemma min_PInf [simp]: "min PInf x = x"
  by (cases x) (simp_all add: min_def)

lemma max_MInf2 [simp]: "max x MInf = x"
  by (cases x) (simp_all add: max_def)

lemma min_PInf2 [simp]: "min x PInf = x"
  by (cases x) (simp_all add: min_def)

lemma search_sound:
  "wf_board b \<Longrightarrow> al < be \<Longrightarrow> minimax n b d al be mx p = Inr (n', s, mv)
     \<Longrightarrow> fail_soft al be (exhaustive b d mx p) s"
  "wf_board b \<Longrightarrow> set ms \<subseteq> set (moves_of b cur) \<Longrightarrow> ev \<le> al \<Longrightarrow> al < be
     \<Longrightarrow> max_loop n b d al be p cur ms ev bm = Inr (n', s, mv)
     \<Longrightarrow> fail_soft al be
           (max ev (best_max (map (\<lambda>m. exhaustive (child b cur m) (d - 1) False p) ms))) s"
  "wf_board b \<Longrightarrow> set ms \<subseteq> set (moves_of b cur) \<Longrightarrow> be \<le> ev \<Longrightarrow> al < be
     \<Longrightarrow> min_loop n b d al be p cur ms ev bm = Inr (n', s, mv)
     \<Longrightarrow> fail_soft al be
           (min ev (best_min (map (\<lambda>m. exhaustive (child b cur m) (d - 1) True p) ms))) s"
proof (induction n b d al be mx p and n b d al be p cur ms ev bm and n b d al be p cur ms ev bm
       arbitrary: n' s mv and n' s mv and n' s mv
       rule: minimax_max_loop_min_loop.induct)
  case (1 n b d al be mx p)
  note wf = \<open>wf_board b\<close> and w = \<open>al < be\<close>
  let ?cur = "if mx then p else opponent_of p"
  note go = is_game_over_wf[OF wf] and gv = get_valid_moves_of[OF wf, of ?cur]
  note res = trans[OF sym[OF minimax_unfold[OF wf]] "1.prems"(3)]
  show ?case
  proof (cases "d = 0 \<or> terminal b")
    case True
    with res show ?thesis by (subst exhaustive.simps) (auto simp: fail_soft_refl)
  next
    case False
    then have d: "d \<noteq> 0" and t: "terminal b = False" by auto
    show ?thesis
    proof (cases "moves_of b ?cur = []")
      case True
      with res False have "minimax (n + 1) b (d - 1) al be (\<not> mx) p = Inr (n', s, mv)" by simp
      from "1.IH"(1)[OF refl refl refl d go t gv True wf w this] False True
      show ?thesis by (subst exhaustive.simps) simp
    next
      case ne: False
      show ?thesis
      proof (cases mx)
        case True
        with res False ne
        have "max_loop (n + 1) b d al be p ?cur (moves_of b ?cur) MInf None = Inr (n', s, mv)"
          by simp
        from "1.IH"(2)[OF refl refl refl d go t gv ne True wf _ _ w this] False ne True
        show ?thesis by (subst exhaustive.simps) simp
      next
        case mn: False
        with res False ne
        have "min_loop (n + 1) b d al be p ?cur (moves_of b ?cur) PInf None = Inr (n', s, mv)"
          by simp
        from "1.IH"(3)[OF refl refl refl d go t gv ne mn wf _ _ w this] False ne mn
        show ?thesis by (subst exhaustive.simps) simp
      qed
    qed
  qed
next
  case (2 n b d al be p cur ev bm)
  then show ?case by (simp add: fail_soft_refl)
next
  case (3 n b d al be p cur m rest ev bm)
  note wf = \<open>wf_board b\<close> and w = \<open>al < be\<close> and e = \<open>ev \<le> al\<close>
  from "3.prems" have m: "m \<in> set (moves_of b cur)" and rest: "set rest \<subseteq> set (moves_of b cur)"
    by auto
  note cp = copy_board_wf[OF wf] and mk = child_wf(1)[OF wf m] and wc = child_wf(2)[OF wf m]
  from search_returns(1)[OF wc]
  obtain n1 c mv1 where c: "minimax n (child b cur m) (d - 1) al be False p = Inr (n1, Fin c, mv1)"
    by blast
  then have c': "minimax n (snd (True, child b cur m)) (d - 1) al be False p
                 = Inr (n1, Fin c, mv1)" by simp
  have fc: "fail_soft al be (exhaustive (child b cur m) (d - 1) False p) (Fin c)"
    using "3.IH"(1)[OF cp mk _ w c'] wc by simp
  note res = "3.prems"(5)[unfolded max_loop_unfold[OF wf m] c, simplified]
  show ?case
  proof (cases "be \<le> max al (Fin c)")
    case True
    with res have "s = max ev (Fin c)" by simp
    with max_cut[OF e w fc True] show ?thesis by simp
  next
    case False
    with res have r: "max_loop n1 b d (max al (Fin c)) be p cur rest (max ev (Fin c))
                 (if ev < Fin c then Some m else bm) = Inr (n', s, mv)" by simp
    have e': "max ev (Fin c) \<le> max al (Fin c)" using e by (auto simp: max_def)
    from False have w': "max al (Fin c) < be" by (simp add: not_le)
    note IH2 = "3.IH"(2)[OF cp mk c' refl refl refl refl refl,
        unfolded fst_conv snd_conv if_less_max, OF False wf rest e' w' r]
    from max_step[OF e w fc False IH2] show ?thesis by simp
  qed
next
  case (4 n b d al be p cur ev bm)
  then show ?case by (simp add: fail_soft_refl)
next
  case (5 n b d al be p cur m rest ev bm)
  note wf = \<open>wf_board b\<close> and w = \<open>al < be\<close> and e = \<open>be \<le> ev\<close>
  from "5.prems" have m: "m \<in> set (moves_of b cur)" and rest: "set rest \<subseteq> set (moves_of b cur)"
    by auto
  note cp = copy_board_wf[OF wf] and mk = child_wf(1)[OF wf m] and wc = child_wf(2)[OF wf m]
  from search_returns(1)[OF wc]
  obtain n1 c mv1 where c: "minimax n (child b cur m) (d - 1) al be True p = Inr (n1, Fin c, mv1)"
    by blast
  then have c': "minimax n (snd (True, child b cur m)) (d - 1) al be True p
                 = Inr (n1, Fin c, mv1)" by simp
  have fc: "fail_soft al be (exhaustive (child b cur m) (d - 1) True p) (Fin c)"
    using "5.IH"(1)[OF cp mk _ w c'] wc by simp
  note res = "5.prems"(5)[unfolded min_loop_unfold[OF wf m] c, simplified]
  show ?case
  proof (cases "min be (Fin c) \<le> al")
    case True
    with res have "s = min ev (Fin c)" by simp
    with min_cut[OF e w fc True] show ?thesis by simp
  next
    case False
    with res have r: "min_loop n1 b d al (min be (Fin c)) p cur rest (min ev (Fin c))
                 (if Fin c < ev then Some m else bm) = Inr (n', s, mv)" by simp
    have e': "min be (Fin c) \<le> min ev (Fin c)" using e by (auto simp: min_def)
    from False have w': "al < min be (Fin c)" by (simp add: not_le)
    note IH2 = "5.IH"(2)[OF cp mk c' refl refl refl refl refl,
        unfolded fst_conv snd_conv if_less_min, OF False wf rest e' w' r]
    from min_step[OF e w fc False IH2] show ?thesis by simp
  qed
qed

subsection \<open>The move returned at the root\<close>

lemma le_MInf_iff [simp]: "x \<le> MInf \<longleftrightarrow> x = MInf"
  by (cases x) simp_all

lemma PInf_le_iff [simp]: "PInf \<le> x \<longleftrightarrow> x = PInf"
  by (cases x) simp_all

lemma not_less_MInf [simp]: "\<not> x < MInf"
  by (simp add: less_ext_def)

lemma not_PInf_less [simp]: "\<not> PInf < x"
  by (simp add: less_ext_def)

lemma best_max_in: "xs \<noteq> [] \<Longrightarrow> (\<forall>x \<in> set xs. x \<noteq> MInf) \<Longrightarrow> best_max xs \<in> set xs"
proof (induction xs)
  case Nil then show ?case by simp
next
  case (Cons x xs)
  then show ?case by (cases "xs = []") (auto simp: max_def)
qed

lemma best_min_in: "xs \<noteq> [] \<Longrightarrow> (\<forall>x \<in> set xs. x \<noteq> PInf) \<Longrightarrow> best_min xs \<in> set xs"
proof (induction xs)
  case Nil then show ?case by simp
next
  case (Cons x xs)
  then show ?case by (cases "xs = []") (auto simp: min_def)
qed

lemma Fin_less_PInf [simp]: "Fin c < PInf" "MInf < Fin c" "\<not> PInf \<le> Fin c" "\<not> Fin c \<le> MInf"
  by (simp_all add: less_ext_def)

lemma root_max_loop:
  assumes wf: "wf_board b"
  shows "set ms \<subseteq> set (moves_of b cur) \<Longrightarrow> ev \<noteq> PInf
     \<Longrightarrow> max_loop n b d ev PInf p cur ms ev bm = Inr (n', s, mv)
     \<Longrightarrow> s = max ev (best_max (map (\<lambda>m. exhaustive (child b cur m) (d - 1) False p) ms))
       \<and> mv = (if ev < best_max (map (\<lambda>m. exhaustive (child b cur m) (d - 1) False p) ms)
               then List.find (\<lambda>m. exhaustive (child b cur m) (d - 1) False p
                      = best_max (map (\<lambda>m. exhaustive (child b cur m) (d - 1) False p) ms)) ms
               else bm)"
proof (induction ms arbitrary: n ev bm)
  case Nil
  then show ?case by simp
next
  case (Cons m rest)
  let ?val = "\<lambda>m. exhaustive (child b cur m) (d - 1) False p"
  let ?R = "best_max (map ?val rest)"
  from Cons.prems have m: "m \<in> set (moves_of b cur)" and rest: "set rest \<subseteq> set (moves_of b cur)"
    by auto
  note wc = child_wf(2)[OF wf m]
  from search_returns(1)[OF wc]
  obtain n1 c mv1 where c: "minimax n (child b cur m) (d - 1) ev PInf False p = Inr (n1, Fin c, mv1)"
    by blast
  from Cons.prems(2) have w: "ev < PInf" by (cases ev) (simp_all add: less_ext_def)
  from search_sound(1)[OF wc w c] have fc: "fail_soft ev PInf (?val m) (Fin c)" .
  from Cons.prems(2) have nc: "\<not> PInf \<le> max ev (Fin c)" by (cases ev) (simp_all add: max_def)
  from Cons.prems(3) nc
  have r: "max_loop n1 b d (max ev (Fin c)) PInf p cur rest (max ev (Fin c))
             (if ev < Fin c then Some m else bm) = Inr (n', s, mv)"
    unfolding max_loop_unfold[OF wf m] c by simp
  from nc have ne: "max ev (Fin c) \<noteq> PInf" by auto
  note IH = Cons.IH[OF rest ne r]
  show ?case
  proof (cases "ev < Fin c")
    case True
    with fc have v: "?val m = Fin c" by (simp add: fail_soft_def)
    from True have e: "max ev (Fin c) = Fin c" by (auto simp: max_def)
    from IH True show ?thesis unfolding e
      by (auto simp: v max_def split: if_splits)
  next
    case False
    then have le: "Fin c \<le> ev" by simp
    with fc have v: "?val m \<le> ev" by (auto simp: fail_soft_def)
    from le have e: "max ev (Fin c) = ev" by (auto simp: max_def)
    from IH False v show ?thesis unfolding e
      by (auto simp: max_def split: if_splits)
  qed
qed


lemma root_min_loop:
  assumes wf: "wf_board b"
  shows "set ms \<subseteq> set (moves_of b cur) \<Longrightarrow> ev \<noteq> MInf
     \<Longrightarrow> min_loop n b d MInf ev p cur ms ev bm = Inr (n', s, mv)
     \<Longrightarrow> s = min ev (best_min (map (\<lambda>m. exhaustive (child b cur m) (d - 1) True p) ms))
       \<and> mv = (if best_min (map (\<lambda>m. exhaustive (child b cur m) (d - 1) True p) ms) < ev
               then List.find (\<lambda>m. exhaustive (child b cur m) (d - 1) True p
                      = best_min (map (\<lambda>m. exhaustive (child b cur m) (d - 1) True p) ms)) ms
               else bm)"
proof (induction ms arbitrary: n ev bm)
  case Nil
  then show ?case by simp
next
  case (Cons m rest)
  let ?val = "\<lambda>m. exhaustive (child b cur m) (d - 1) True p"
  from Cons.prems have m: "m \<in> set (moves_of b cur)" and rest: "set rest \<subseteq> set (moves_of b cur)"
    by auto
  note wc = child_wf(2)[OF wf m]
  from search_returns(1)[OF wc]
  obtain n1 c mv1 where c: "minimax n (child b cur m) (d - 1) MInf ev True p = Inr (n1, Fin c, mv1)"
    by blast
  from Cons.prems(2) have w: "MInf < ev" by (cases ev) (simp_all add: less_ext_def)
  from search_sound(1)[OF wc w c] have fc: "fail_soft MInf ev (?val m) (Fin c)" .
  from Cons.prems(2) have nc: "\<not> min ev (Fin c) \<le> MInf" by (cases ev) (simp_all add: min_def)
  from Cons.prems(3) nc
  have r: "min_loop n1 b d MInf (min ev (Fin c)) p cur rest (min ev (Fin c))
             (if Fin c < ev then Some m else bm) = Inr (n', s, mv)"
    unfolding min_loop_unfold[OF wf m] c by simp
  from nc have ne: "min ev (Fin c) \<noteq> MInf" by auto
  note IH = Cons.IH[OF rest ne r]
  show ?case
  proof (cases "Fin c < ev")
    case True
    with fc have v: "?val m = Fin c" by (simp add: fail_soft_def)
    from True have e: "min ev (Fin c) = Fin c" by (auto simp: min_def)
    from IH True show ?thesis unfolding e
      by (auto simp: v min_def split: if_splits)
  next
    case False
    then have le: "ev \<le> Fin c" by simp
    with fc have v: "ev \<le> ?val m" by (auto simp: fail_soft_def)
    from le have e: "min ev (Fin c) = ev" by (auto simp: min_def)
    from IH False v show ?thesis unfolding e
      by (auto simp: min_def split: if_splits)
  qed
qed

lemma exhaustive_finite: "wf_board b \<Longrightarrow> \<exists>x. exhaustive b d mx p = Fin x"
proof -
  assume wf: "wf_board b"
  from search_returns(1)[OF wf, of 0 d MInf PInf mx p]
  obtain n' s mv where r: "minimax 0 b d MInf PInf mx p = Inr (n', Fin s, mv)" by blast
  have "MInf < PInf" by (simp add: less_ext_def)
  from fail_soft_full[OF search_sound(1)[OF wf this r]] show ?thesis by (auto intro: sym)
qed

lemma minimax_open_window:
  assumes "wf_board b"
  shows "\<exists>n' s mv. minimax n b depth MInf PInf maximizing player = Inr (n', s, mv)
           \<and> s = exhaustive b depth maximizing player
           \<and> (depth \<noteq> 0 \<and> moves_of b (if maximizing then player else opponent_of player) \<noteq> []
                \<longrightarrow> mv \<noteq> None
                  \<and> mv = List.find
                      (\<lambda>m. exhaustive (child b (if maximizing then player else opponent_of player) m)
                              (depth - 1) (\<not> maximizing) player = s)
                      (moves_of b (if maximizing then player else opponent_of player)))"
proof -
  let ?cur = "if maximizing then player else opponent_of player"
  let ?val = "\<lambda>m. exhaustive (child b ?cur m) (depth - 1) (\<not> maximizing) player"
  from search_returns(1)[OF assms, of n depth MInf PInf maximizing player]
  obtain n' x mv where r: "minimax n b depth MInf PInf maximizing player = Inr (n', Fin x, mv)"
    by blast
  have "MInf < PInf" by (simp add: less_ext_def)
  from fail_soft_full[OF search_sound(1)[OF assms this r]]
  have s: "Fin x = exhaustive b depth maximizing player" .
  have "mv \<noteq> None \<and> mv = List.find (\<lambda>m. ?val m = Fin x) (moves_of b ?cur)"
    if d: "depth \<noteq> 0" and ne: "moves_of b ?cur \<noteq> []"
  proof -
    from ne have nt: "\<not> terminal b" by (cases ?cur) (auto simp: terminal_def)
    have fin: "\<forall>v \<in> set (map ?val (moves_of b ?cur)). v \<noteq> MInf \<and> v \<noteq> PInf"
    proof
      fix v assume "v \<in> set (map ?val (moves_of b ?cur))"
      then obtain m where m: "m \<in> set (moves_of b ?cur)" "v = ?val m" by auto
      from exhaustive_finite[OF child_wf(2)[OF assms m(1)], of "depth - 1" "\<not> maximizing" player] m(2)
      show "v \<noteq> MInf \<and> v \<noteq> PInf" by auto
    qed
    show ?thesis
    proof (cases maximizing)
      case True
      from r d nt ne True
      have l: "max_loop (Suc n) b depth MInf PInf player player (moves_of b player) MInf None
               = Inr (n', Fin x, mv)"
        by (subst (asm) minimax_unfold[OF assms]) simp
      note rl = root_max_loop[OF assms _ _ l, simplified]
      from rl True have e: "Fin x = best_max (map ?val (moves_of b ?cur))" by simp
      then have "MInf < best_max (map ?val (moves_of b ?cur))" by (simp add: e[symmetric])
      with rl True
      have f: "mv = List.find (\<lambda>m. ?val m = best_max (map ?val (moves_of b ?cur))) (moves_of b ?cur)"
        by simp
      from best_max_in[of "map ?val (moves_of b ?cur)"] ne fin e
      have "\<exists>m \<in> set (moves_of b ?cur). ?val m = Fin x" by auto
      then have "List.find (\<lambda>m. ?val m = Fin x) (moves_of b ?cur) \<noteq> None"
        unfolding find_None_iff by blast
      with f e show ?thesis by simp
    next
      case False
      from r d nt ne False
      have l: "min_loop (Suc n) b depth MInf PInf player (opponent_of player)
                 (moves_of b (opponent_of player)) PInf None
               = Inr (n', Fin x, mv)"
        by (subst (asm) minimax_unfold[OF assms]) simp
      note rl = root_min_loop[OF assms _ _ l, simplified]
      from rl False have e: "Fin x = best_min (map ?val (moves_of b ?cur))" by simp
      then have "best_min (map ?val (moves_of b ?cur)) < PInf" by (simp add: e[symmetric])
      with rl False
      have f: "mv = List.find (\<lambda>m. ?val m = best_min (map ?val (moves_of b ?cur))) (moves_of b ?cur)"
        by simp
      from best_min_in[of "map ?val (moves_of b ?cur)"] ne fin e
      have "\<exists>m \<in> set (moves_of b ?cur). ?val m = Fin x" by auto
      then have "List.find (\<lambda>m. ?val m = Fin x) (moves_of b ?cur) \<noteq> None"
        unfolding find_None_iff by blast
      with f e show ?thesis by simp
    qed
  qed
  with r s show ?thesis by auto
qed


text \<open>
  C2. On a structurally valid board and for every depth, the search started with the open
  window returns the score of the exhaustive minimax over the same tree. When the mover
  has a move and the depth is not 0, the move returned is the first move in the
  generator's order whose child has that exhaustive value (so it attains the score, and a
  later move of equal value never replaces it).
\<close>

theorem alpha_beta_equals_exhaustive:
  assumes "wf_board b"
  shows "\<exists>n' s mv. minimax n b depth MInf PInf maximizing player = Inr (n', s, mv)
           \<and> s = exhaustive b depth maximizing player
           \<and> (depth \<noteq> 0 \<and> moves_of b (if maximizing then player else opponent_of player) \<noteq> []
                \<longrightarrow> mv \<noteq> None
                  \<and> mv = List.find
                      (\<lambda>m. exhaustive (child b (if maximizing then player else opponent_of player) m)
                              (depth - 1) (\<not> maximizing) player = s)
                      (moves_of b (if maximizing then player else opponent_of player)))"
  using minimax_open_window[OF assms] .

theorem alpha_beta_equals_exhaustive_witness:
  "wf_board (new_board 2)
   \<and> moves_of (new_board 2) A = [(0, 1, 2), (1, 0, 2)]
   \<and> minimax 0 (new_board 2) (- 1) MInf PInf True A = Inr (5, Fin 0, Some (0, 1, 2))
   \<and> exhaustive (new_board 2) (- 1) True A = Fin 0
   \<and> exhaustive (child (new_board 2) A (1, 0, 2)) (- 2) False A = Fin 0
   \<and> List.find (\<lambda>m. exhaustive (child (new_board 2) A m) (- 2) False A = Fin 0)
        (moves_of (new_board 2) A) = Some (0, 1, 2)"
proof -
  have w: "wf_board (new_board 2)" by code_simp
  have ms: "moves_of (new_board 2) A = [(0, 1, 2), (1, 0, 2)]" by code_simp
  have v: "minimax 0 (new_board 2) (- 1) MInf PInf True A = Inr (5, Fin 0, Some (0, 1, 2))"
    by code_simp
  have t: "exhaustive (child (new_board 2) A (1, 0, 2)) (- 2) False A = Fin 0" by code_simp
  from alpha_beta_equals_exhaustive[OF w, of 0 "- 1" True A]
  obtain n' s mv where a: "minimax 0 (new_board 2) (- 1) MInf PInf True A = Inr (n', s, mv)"
      "s = exhaustive (new_board 2) (- 1) True A"
    and f: "moves_of (new_board 2) A \<noteq> [] \<Longrightarrow>
            mv = List.find (\<lambda>m. exhaustive (child (new_board 2) A m) (- 2) False A = s)
                   (moves_of (new_board 2) A)"
    by auto
  from a(1) v have sm: "s = Fin 0" "mv = Some (0, 1, 2)" by simp_all
  have "moves_of (new_board 2) A \<noteq> []" by (simp add: ms)
  from f[OF this] a(2)
  have "Fin 0 = exhaustive (new_board 2) (- 1) True A
        \<and> Some (0, 1, 2) = List.find (\<lambda>m. exhaustive (child (new_board 2) A m) (- 2) False A = Fin 0)
             (moves_of (new_board 2) A)"
    unfolding sm by simp
  then have "exhaustive (new_board 2) (- 1) True A = Fin 0"
    and "List.find (\<lambda>m. exhaustive (child (new_board 2) A m) (- 2) False A = Fin 0)
             (moves_of (new_board 2) A) = Some (0, 1, 2)"
    by (blast intro: sym)+
  with w ms v t show ?thesis by blast
qed

subsection \<open>The best move\<close>

lemma find_in_set: "List.find P xs = Some x \<Longrightarrow> x \<in> set xs"
  by (auto simp: find_Some_iff)

lemma get_best_move_wf:
  assumes "wf_board b"
  shows "\<exists>ai' mv. get_best_move ai b player = Inr (ai', mv)
           \<and> (mv = None \<longleftrightarrow> moves_of b player = [] \<or> max_depth ai = 0)
           \<and> (\<forall>m. mv = Some m \<longrightarrow> m \<in> set (moves_of b player))"
proof (cases "moves_of b player = []")
  case True
  then show ?thesis
    by (simp add: get_best_move_def get_valid_moves_of[OF assms])
next
  case False
  from minimax_open_window[OF assms, of 0 "max_depth ai" True player]
  obtain n' s mv where r: "minimax 0 b (max_depth ai) MInf PInf True player = Inr (n', s, mv)"
    and f: "max_depth ai \<noteq> 0 \<Longrightarrow> mv \<noteq> None
          \<and> mv = List.find (\<lambda>m. exhaustive (child b player m) (max_depth ai - 1) False player = s)
                 (moves_of b player)"
    using False by auto
  have z: "mv = None" if "max_depth ai = 0"
    using r that by (subst (asm) minimax_unfold[OF assms]) simp
  have g: "get_best_move ai b player = Inr (ai\<lparr>nodes_evaluated := n'\<rparr>, mv)"
    using False r by (simp add: get_best_move_def get_valid_moves_of[OF assms])
  have "m \<in> set (moves_of b player)" if "mv = Some m" for m
  proof -
    from that z have "max_depth ai \<noteq> 0" by auto
    from f[OF this] that show ?thesis by (auto dest: find_in_set[OF sym])
  qed
  with g z f False show ?thesis by auto
qed

text \<open>
  C5 (as amended). On a structurally valid board \<^verbatim>\<open>get_best_move\<close> never raises, whatever
  the integer depth; it returns no move exactly when the mover has no legal move or the
  depth is 0, and a move it returns is one of the mover's legal moves. At depth 0
  \<^verbatim>\<open>minimax\<close> returns the immediate evaluation of the position with no move.
\<close>

theorem get_best_move_none:
  assumes "wf_board b"
  shows "(\<exists>ai' mv. get_best_move ai b player = Inr (ai', mv)
            \<and> (mv = None \<longleftrightarrow> moves_of b player = [] \<or> max_depth ai = 0)
            \<and> (\<forall>m. mv = Some m \<longrightarrow> m \<in> set (moves_of b player)))
         \<and> (\<exists>e. evaluate_position b player = Inr e
                \<and> minimax n b 0 alpha beta maximizing player = Inr (n + 1, Fin e, None))"
  using get_best_move_wf[OF assms] evaluate_position_wf[OF assms]
  by (subst minimax_unfold[OF assms]) simp

theorem get_best_move_none_witness:
  "wf_board (play (new_board 2) [(0, 1, A, 2)])
   \<and> moves_of (play (new_board 2) [(0, 1, A, 2)]) A = [(1, 0, 3)]
   \<and> get_best_move \<lparr>max_depth = 2, nodes_evaluated = 0\<rparr> (play (new_board 2) [(0, 1, A, 2)]) A
       = Inr (\<lparr>max_depth = 2, nodes_evaluated = 2\<rparr>, Some (1, 0, 3))
   \<and> get_best_move \<lparr>max_depth = 0, nodes_evaluated = 0\<rparr> (play (new_board 2) [(0, 1, A, 2)]) A
       = Inr (\<lparr>max_depth = 0, nodes_evaluated = 1\<rparr>, None)
   \<and> evaluate_position (play (new_board 2) [(0, 1, A, 2)]) A = Inr 110
   \<and> minimax 3 (play (new_board 2) [(0, 1, A, 2)]) 0 MInf PInf True A = Inr (4, Fin 110, None)"
proof -
  let ?B = "play (new_board 2) [(0, 1, A, 2)]"
  have w: "wf_board ?B" by code_simp
  have ms: "moves_of ?B A = [(1, 0, 3)]" by code_simp
  have g2: "get_best_move \<lparr>max_depth = 2, nodes_evaluated = 0\<rparr> ?B A
            = Inr (\<lparr>max_depth = 2, nodes_evaluated = 2\<rparr>, Some (1, 0, 3))" by code_simp
  have g0: "get_best_move \<lparr>max_depth = 0, nodes_evaluated = 0\<rparr> ?B A
            = Inr (\<lparr>max_depth = 0, nodes_evaluated = 1\<rparr>, None)" by code_simp
  have e: "evaluate_position ?B A = Inr 110" by code_simp
  from get_best_move_none[OF w, of "\<lparr>max_depth = 0, nodes_evaluated = 0\<rparr>" A 3 MInf PInf True] e
  have "minimax 3 ?B 0 MInf PInf True A = Inr (4, Fin 110, None)" by auto
  with w ms g2 g0 e show ?thesis by blast
qed

theorem get_best_move_negative_depth_counterexample:
  "get_best_move \<lparr>max_depth = - 1, nodes_evaluated = 0\<rparr> (play (new_board 2) [(0, 1, A, 2)]) A
     = Inr (\<lparr>max_depth = - 1, nodes_evaluated = 2\<rparr>, Some (1, 0, 3))
   \<and> minimax 0 (play (new_board 2) [(0, 1, A, 2)]) (- 1) MInf PInf True A
       = Inr (2, Fin 220, Some (1, 0, 3))
   \<and> evaluate_position (play (new_board 2) [(0, 1, A, 2)]) A = Inr 110"
  by code_simp

subsection \<open>Further properties\<close>

text \<open>
  What \<^verbatim>\<open>make_move\<close> does on a structurally valid board, for every pair of coordinates:
  outside \<open>[-size, size)\<close> it raises \<^verbatim>\<open>IndexError\<close>; inside, it returns \<^verbatim>\<open>False\<close> and leaves
  the board as it was unless the move is legal; a legal move returns \<^verbatim>\<open>True\<close>, the board
  stays structurally valid and the target cell holds the player's value.
\<close>

theorem make_move_behaviour:
  assumes "wf_board b"
  shows "(\<not> (- board_size b \<le> row \<and> row < board_size b
             \<and> - board_size b \<le> col \<and> col < board_size b)
            \<longrightarrow> make_move b row col player v = Inl IndexError)
         \<and> (- board_size b \<le> row \<and> row < board_size b
             \<and> - board_size b \<le> col \<and> col < board_size b
             \<and> \<not> is_legal_move b player (row, col, v)
            \<longrightarrow> make_move b row col player v = Inr (False, b))
         \<and> (is_legal_move b player (row, col, v)
            \<longrightarrow> (\<exists>b'. make_move b row col player v = Inr (True, b') \<and> wf_board b'
                    \<and> get_cell b' row col = Inr (Some (player, v))))"
proof (intro conjI impI)
  assume l: "is_legal_move b player (row, col, v)"
  then have i: "inb b row col" and e: "get_cell b row col = Inr None"
    by (auto simp: is_legal_move_def inb_def)
  from assms have g: "grid_ok b" by (simp add: wf_board_iff)
  from e i have c: "cell_of b row col = None" by (simp add: get_cell_wf[OF g])
  from l i obtain b' where mm: "make_move b row col player v = Inr (True, b')"
    unfolding make_move_wf[OF assms] by (auto simp: inb_def)
  then have sc: "set_cell b row col player v = Inr b'"
    unfolding make_move_wf[OF assms] set_cell_inb[OF g i] using l by (auto split: if_splits)
  note f = wf_set_cell[OF assms i c sc]
  from f(1) have g': "grid_ok b'" by (simp add: wf_board_iff)
  from i f(2) have i': "inb b' row col" by (simp add: inb_def)
  from f(3)[OF i] i' have "get_cell b' row col = Inr (Some (player, v))"
    by (simp add: get_cell_wf[OF g'])
  with mm f(1) show "\<exists>b'. make_move b row col player v = Inr (True, b') \<and> wf_board b'
                    \<and> get_cell b' row col = Inr (Some (player, v))" by blast
qed (simp_all add: make_move_wf[OF assms])

theorem make_move_behaviour_witness:
  "wf_board (new_board 2)
   \<and> make_move (new_board 2) 0 2 A 2 = Inl IndexError
   \<and> make_move (new_board 2) (- 1) 0 A 2 = Inr (False, new_board 2)
   \<and> make_move (new_board 2) 1 1 A 2 = Inr (False, new_board 2)
   \<and> (\<exists>b'. make_move (new_board 2) 0 1 A 2 = Inr (True, b') \<and> wf_board b'
           \<and> get_cell b' 0 1 = Inr (Some (A, 2)))"
proof -
  have w: "wf_board (new_board 2)" by code_simp
  have s: "board_size (new_board 2) = 2" by code_simp
  have l: "\<not> is_legal_move (new_board 2) A (- 1, 0, 2)" "\<not> is_legal_move (new_board 2) A (1, 1, 2)"
    "is_legal_move (new_board 2) A (0, 1, 2)" by code_simp+
  from make_move_behaviour[OF w, of 0 2 A 2] make_move_behaviour[OF w, of "- 1" 0 A 2]
    make_move_behaviour[OF w, of 1 1 A 2] make_move_behaviour[OF w, of 0 1 A 2] l w
  show ?thesis unfolding s by simp
qed

text \<open>
  The fail-soft contract of the pruned search for an arbitrary window \<open>al < be\<close> on a
  structurally valid board: a result at or below \<open>al\<close> is an upper bound of the
  exhaustive value, a result at or above \<open>be\<close> is a lower bound, and a result strictly
  inside the window is the exhaustive value.
\<close>

theorem minimax_fail_soft:
  assumes "wf_board b" "al < be"
  shows "\<exists>n' s mv. minimax n b depth al be maximizing player = Inr (n', s, mv)
           \<and> (s \<le> al \<longrightarrow> exhaustive b depth maximizing player \<le> s)
           \<and> (al < s \<and> s < be \<longrightarrow> s = exhaustive b depth maximizing player)
           \<and> (be \<le> s \<longrightarrow> s \<le> exhaustive b depth maximizing player)"
proof -
  from search_returns(1)[OF assms(1), of n depth al be maximizing player]
  obtain n' x mv where r: "minimax n b depth al be maximizing player = Inr (n', Fin x, mv)"
    by blast
  from search_sound(1)[OF assms r] r show ?thesis by (auto simp: fail_soft_def)
qed

theorem minimax_fail_soft_witness:
  "wf_board (new_board 3) \<and> Fin 5 < Fin 6
   \<and> minimax 0 (new_board 3) 2 (Fin 5) (Fin 6) True A = Inr (7, Fin 2, Some (1, 1, 2))
   \<and> exhaustive (new_board 3) 2 True A \<le> Fin 2"
proof -
  have w: "wf_board (new_board 3)" by code_simp
  have l: "Fin 5 < Fin 6" by (simp add: less_ext_def)
  have v: "minimax 0 (new_board 3) 2 (Fin 5) (Fin 6) True A = Inr (7, Fin 2, Some (1, 1, 2))"
    by code_simp
  from minimax_fail_soft[OF w l, of 0 2 True A] v
  have "exhaustive (new_board 3) 2 True A \<le> Fin 2" by auto
  with w l v show ?thesis by blast
qed

end
